theory Spec2Isabelle
  imports Main "HOL-Library.Word"
begin

unbundle bit_operations_syntax

section \<open>Build configuration\<close>

text \<open>
  The library is configured at compile time. The shipped configuration header sets
  \<^verbatim>\<open>ENABLE_RECEIVING 1\<close>, \<^verbatim>\<open>ENABLE_FORMAT 1\<close>, \<^verbatim>\<open>ENABLE_TRANSMITTING 1\<close> and
  \<^verbatim>\<open>BC7215_MAX_RX_DATA_SIZE 48\<close>; \<^verbatim>\<open>bc7215.h\<close> derives the capacity of the circular
  buffer from it. The capacity is below 256, so every position and counter of the
  driver is a \<^verbatim>\<open>uint8_t\<close>. The format packet is one signature byte and 32 timing
  bytes, hence \<^verbatim>\<open>sizeof(bc7215FormatPkt_t)\<close> is 33.
\<close>

definition BC7215_MAX_RX_DATA_SIZE :: nat where
  "BC7215_MAX_RX_DATA_SIZE = 48"

definition BC7215_BUFFER_SIZE :: nat where
  "BC7215_BUFFER_SIZE = (BC7215_MAX_RX_DATA_SIZE + 3) + (32 + 1)"

definition sizeof_bc7215FormatPkt_t :: nat where
  "sizeof_bc7215FormatPkt_t = 1 + 32"

text \<open>The enumerators of \<^verbatim>\<open>MODConnect\<close> and \<^verbatim>\<open>BUSYConnect\<close>.\<close>

definition MOD_HIGH :: int where "MOD_HIGH = -1"
definition MOD_LOW :: int where "MOD_LOW = -2"
definition BUSY_NC :: int where "BUSY_NC = -3"

section \<open>Driver state\<close>

text \<open>
  One record holds everything an instance of class \<^verbatim>\<open>BC7215\<close> owns, together with
  the parts of the environment its member functions touch:
  \<^item> \<open>modLevel\<close> is the level \<^verbatim>\<open>digitalRead(modPin)\<close> returns (\<open>True\<close> is HIGH); the
    MOD pin is an output of the host, so it is the level last written to it;
  \<^item> \<open>busyLine\<close> is the sequence of levels the chip presents on BUSY, one per
    \<^verbatim>\<open>digitalRead(busyPin)\<close>, and \<open>busyReads\<close> counts the reads made so far;
  \<^item> \<open>uartIn\<close> is the queue of bytes pending in the UART, \<open>uartOut\<close> the bytes written;
  \<^item> \<open>previousData\<close> is the \<^verbatim>\<open>static\<close> local of \<^verbatim>\<open>processData\<close>; it is shared by all
    instances, and the model has one driver;
  \<^item> \<open>circularBuffer\<close> maps an array index to the byte stored there; the array has
    \<open>BC7215_BUFFER_SIZE\<close> elements, and \<open>processData_write_in_range\<close> below shows that
    no write falls outside them.
  The five one-bit members of \<^verbatim>\<open>bc7215Status\<close> are booleans.

  The library is built for boards that differ in the width of \<^verbatim>\<open>int\<close>: 16 bits on
  the AVR boards the documentation names (UNO, Leonardo), 32 bits on the ESP8266 and
  ESP32 of the examples. \<open>intIs16Bit\<close> records which of the two the driver was compiled
  for; no member function changes it.
\<close>

record driver =
  intIs16Bit :: bool
  modPin :: int
  busyPin :: int
  modLevel :: bool
  busyLine :: "nat \<Rightarrow> bool"
  busyReads :: nat
  uartIn :: "8 word list"
  uartOut :: "8 word list"
  formatPktReady :: bool
  dataPktReady :: bool
  pktStarted :: bool
  overLap :: bool
  cmdComplete :: bool
  bitLen :: "16 word"
  circularBuffer :: "nat \<Rightarrow> 8 word"
  startPos :: "8 word"
  datStartPos :: "8 word"
  lastWritingPos :: "8 word"
  datEndPos :: "8 word"
  byteCount :: "8 word"
  datCount :: "8 word"
  previousData :: "8 word"

text \<open>
  The test \<^verbatim>\<open>(modPin == -2) || ((modPin >= 0) && (digitalRead(modPin) == LOW))\<close>, which
  the source repeats wherever it asks whether the chip is in transmit mode, and its
  counterpart for HIGH in \<^verbatim>\<open>setRxMode\<close>.
\<close>

definition modIsLow :: "driver \<Rightarrow> bool" where
  "modIsLow s \<longleftrightarrow> modPin s = -2 \<or> (modPin s \<ge> 0 \<and> \<not> modLevel s)"

definition modIsHigh :: "driver \<Rightarrow> bool" where
  "modIsHigh s \<longleftrightarrow> modPin s = -1 \<or> (modPin s \<ge> 0 \<and> modLevel s)"

section \<open>Circular buffer reads\<close>

text \<open>
  Both readers take \<^verbatim>\<open>uint8_t\<close> arguments and compute the index in \<^verbatim>\<open>int\<close>, so the
  sums and differences below do not wrap.
\<close>

definition bufBackRead :: "driver \<Rightarrow> 8 word \<Rightarrow> 8 word \<Rightarrow> 8 word" where
  "bufBackRead s pos n =
     (if unat pos \<ge> unat n then circularBuffer s (unat pos - unat n)
      else circularBuffer s (BC7215_BUFFER_SIZE + unat pos - unat n))"

definition bufRead :: "driver \<Rightarrow> 8 word \<Rightarrow> 8 word \<Rightarrow> 8 word" where
  "bufRead s pos n =
     (if unat pos + unat n \<ge> BC7215_BUFFER_SIZE
      then circularBuffer s (unat pos + unat n - BC7215_BUFFER_SIZE)
      else circularBuffer s (unat pos + unat n))"

section \<open>The framing state machine\<close>

text \<open>
  The expression \<^verbatim>\<open>(n + 7) / 8\<close> for a \<^verbatim>\<open>uint16_t n\<close>, which \<^verbatim>\<open>processData\<close>,
  \<^verbatim>\<open>dpketSize\<close> and \<^verbatim>\<open>getRaw\<close> evaluate. Where \<^verbatim>\<open>int\<close> has 16 bits, \<^verbatim>\<open>uint16_t\<close> is
  \<^verbatim>\<open>unsigned int\<close>, the sum is an \<^verbatim>\<open>unsigned int\<close> and wraps modulo 65536. Where \<^verbatim>\<open>int\<close>
  is wider, \<open>n\<close> is promoted to \<^verbatim>\<open>int\<close> and the sum is exact. The quotient is at most
  8191, so adding 2 or 3 to it wraps in neither case.
\<close>

definition bytesForBits :: "bool \<Rightarrow> 16 word \<Rightarrow> nat" where
  "bytesForBits short n = (if short then unat ((n + 7) div 8) else (unat n + 7) div 8)"

text \<open>
  \<^verbatim>\<open>processData\<close> handles one byte read from the UART. The sum \<^verbatim>\<open>byteCount + datCount\<close>
  of two \<^verbatim>\<open>uint8_t\<close> is computed in \<^verbatim>\<open>int\<close> and is at most 510, so it is exact on every
  target. The increments of the \<^verbatim>\<open>uint8_t\<close> members wrap, as word addition does.
\<close>

definition processData :: "driver \<Rightarrow> 8 word \<Rightarrow> driver" where
  "processData s data =
    (if modIsLow s then
       (if data = 0x7a then s\<lparr>cmdComplete := True\<rparr> else s)
     else if data = 0x7a then
       (let s1 =
          (if \<not> overLap s then
             (if previousData s = 0x7a then
                (let a = s\<lparr>dataPktReady := False\<rparr>;
                     b = (if unat (byteCount a) = sizeof_bc7215FormatPkt_t
                          then a\<lparr>formatPktReady := True\<rparr> else a)
                 in if unat (byteCount b) + unat (datCount b) \<le> BC7215_BUFFER_SIZE
                       \<and> bufBackRead b (datEndPos b) 2 AND 0x80 = 0
                    then b\<lparr>bitLen := push_bit 8 (ucast (bufBackRead b (datEndPos b) 0))
                                       OR ucast (bufBackRead b (datEndPos b) 1),
                           dataPktReady := True\<rparr>
                    else b)
              else
                (if bufBackRead s (lastWritingPos s) 2 AND 0x80 = 0 then
                   (let temp16 = push_bit 8 (ucast (bufBackRead s (lastWritingPos s) 0))
                                   OR ucast (bufBackRead s (lastWritingPos s) 1) :: 16 word
                    in if bytesForBits (intIs16Bit s) temp16 + 3 = unat (byteCount s)
                       then s\<lparr>bitLen := temp16,
                              dataPktReady := True,
                              datStartPos := startPos s,
                              datEndPos := lastWritingPos s,
                              datCount := byteCount s\<rparr>
                       else s)
                 else s))
           else s)
        in s1\<lparr>previousData := 0x7a, pktStarted := False\<rparr>)
     else
       (let s1 =
          (if \<not> pktStarted s then
             s\<lparr>pktStarted := True,
               overLap := False,
               byteCount := 0,
               bitLen := 0,
               dataPktReady := False,
               formatPktReady := False,
               startPos := (if unat (lastWritingPos s + 1) \<ge> BC7215_BUFFER_SIZE
                            then 0 else lastWritingPos s + 1)\<rparr>
           else s)
        in if data = 0x7b then s1\<lparr>previousData := 0x7b\<rparr>
           else
             (let stored = (if previousData s1 = 0x7b then data AND 0x7f else data);
                  pos = (if unat (lastWritingPos s1 + 1) \<ge> BC7215_BUFFER_SIZE
                         then 0 else lastWritingPos s1 + 1);
                  s2 = s1\<lparr>previousData := data,
                          lastWritingPos := pos,
                          circularBuffer := (circularBuffer s1)(unat pos := stored),
                          byteCount := byteCount s1 + 1\<rparr>
              in if unat (byteCount s2) > BC7215_BUFFER_SIZE
                 then s2\<lparr>overLap := True\<rparr> else s2)))"

text \<open>
  \<^verbatim>\<open>processData\<close> never touches the UART, the pins or the wiring.
\<close>

lemma processData_uartIn [simp]: "uartIn (processData s d) = uartIn s"
  by (simp add: processData_def Let_def)

lemma processData_intIs16Bit [simp]: "intIs16Bit (processData s d) = intIs16Bit s"
  by (simp add: processData_def Let_def)

lemma processData_modIsLow [simp]: "modIsLow (processData s d) = modIsLow s"
  by (simp add: processData_def Let_def modIsLow_def)

text \<open>
  \<^verbatim>\<open>statusUpdate\<close>: \<^verbatim>\<open>while (uart.available() > 0) processData(uart.read());\<close>. The
  bytes pending when the call is made are the queue \<open>uartIn\<close>; each round of the loop
  takes the first of them.
\<close>

function statusUpdate :: "driver \<Rightarrow> driver" where
  "statusUpdate s =
     (case uartIn s of
        [] \<Rightarrow> s
      | b # bs \<Rightarrow> statusUpdate (processData (s\<lparr>uartIn := bs\<rparr>) b))"
  by pat_completeness auto

termination
  by (relation "measure (\<lambda>s. length (uartIn s))") auto

declare statusUpdate.simps [simp del]

section \<open>Mode control and sending\<close>

text \<open>
  \<^verbatim>\<open>setTx\<close>: drive a real MOD pin LOW, then reset three receive flags and set
  \<open>cmdComplete\<close>.
\<close>

definition setTx :: "driver \<Rightarrow> driver" where
  "setTx s =
     (let s1 = (if modPin s \<ge> 0 then s\<lparr>modLevel := False\<rparr> else s)
      in s1\<lparr>dataPktReady := False,
            formatPktReady := False,
            pktStarted := False,
            cmdComplete := True\<rparr>)"

definition setRx :: "driver \<Rightarrow> driver" where
  "setRx s = (if modPin s \<ge> 0 then s\<lparr>modLevel := True\<rparr> else s)"

text \<open>
  \<^verbatim>\<open>isBusy\<close> returns its answer and leaves the driver in the state reached by the
  drain.
\<close>

definition isBusy :: "driver \<Rightarrow> bool \<times> driver" where
  "isBusy s =
     (let s1 = statusUpdate s
      in ((if modIsLow s1 then \<not> cmdComplete s1 else pktStarted s1), s1))"

text \<open>
  \<^verbatim>\<open>sendOneByte\<close> spins on \<^verbatim>\<open>while (digitalRead(busyPin) == HIGH);\<close> when BUSY is wired.
  The loop has no bound: if the chip never releases BUSY the call does not return,
  which is the value \<open>None\<close>. \<open>waitBusy line t\<close> reads the line from read number \<open>t\<close> on
  and returns the number of the read after the first LOW one.
\<close>

partial_function (option) waitBusy :: "(nat \<Rightarrow> bool) \<Rightarrow> nat \<Rightarrow> nat option" where
  "waitBusy line t = (if line t then waitBusy line (Suc t) else Some (Suc t))"

definition sendOneByte :: "driver \<Rightarrow> 8 word \<Rightarrow> driver option" where
  "sendOneByte s data =
     (if busyPin s \<noteq> -3 then
        (case waitBusy (busyLine s) (busyReads s) of
           None \<Rightarrow> None
         | Some t \<Rightarrow> Some (s\<lparr>busyReads := t, uartOut := uartOut s @ [data]\<rparr>))
      else Some (s\<lparr>uartOut := uartOut s @ [data]\<rparr>))"

definition byteStuffingSend :: "driver \<Rightarrow> 8 word \<Rightarrow> driver option" where
  "byteStuffingSend s data =
     (if data = 0x7a \<or> data = 0x7b then
        Option.bind (sendOneByte s 0x7b) (\<lambda>s1. sendOneByte s1 (data OR 0x80))
      else sendOneByte s data)"

definition setShutDown :: "driver \<Rightarrow> driver option" where
  "setShutDown s =
     Option.bind
       (if modIsLow s
        then Option.bind (sendOneByte s 0xf7) (\<lambda>s1. sendOneByte s1 0x00)
        else Some s)
       (\<lambda>s2. Some (s2\<lparr>cmdComplete := False\<rparr>))"

definition setRxMode :: "driver \<Rightarrow> 8 word \<Rightarrow> driver option" where
  "setRxMode s mode = (if modIsHigh s then sendOneByte s mode else Some s)"

section \<open>Receiving\<close>

text \<open>
  The caller's packet structures. The data array of \<^verbatim>\<open>bc7215DataVarPkt_t\<close> is declared
  with one element and is as long as the caller made it; no member function knows its
  capacity, so it is the memory that follows \<open>bitLen\<close>, indexed from 0. The same holds
  for the \<^verbatim>\<open>void*\<close> of \<^verbatim>\<open>getRaw\<close> and \<^verbatim>\<open>sendRaw\<close>.
\<close>

record bc7215DataVarPkt_t =
  pktBitLen :: "16 word"
  pktData :: "nat \<Rightarrow> 8 word"

record bc7215FormatPkt_t =
  signature :: "8 word"
  format :: "nat \<Rightarrow> 8 word"

definition dataReady :: "driver \<Rightarrow> bool \<times> driver" where
  "dataReady s = (let s1 = statusUpdate s in (dataPktReady s1, s1))"

definition clrData :: "driver \<Rightarrow> driver" where
  "clrData s = s\<lparr>dataPktReady := False\<rparr>"

definition getLen :: "driver \<Rightarrow> 16 word \<times> driver" where
  "getLen s = (let s1 = statusUpdate s in ((if dataPktReady s1 then bitLen s1 else 0), s1))"

definition dpketSize :: "driver \<Rightarrow> 16 word \<times> driver" where
  "dpketSize s =
     (let s1 = statusUpdate s
      in ((if dataPktReady s1
           then of_nat (bytesForBits (intIs16Bit s1) (bitLen s1) + 2) else 0), s1))"

lemma unat_Suc_word8: "unat (i :: 8 word) < 255 \<Longrightarrow> unat (i + 1) = Suc (unat i)"
  by (simp add: unat_word_ariths)

lemma unat_Suc_word16: "(i :: 16 word) < n \<Longrightarrow> unat (i + 1) = Suc (unat i)"
proof -
  assume "i < n"
  then have "unat i < unat n" by (simp add: word_less_nat_alt)
  moreover have "unat n < 65536" using unsigned_less [of n] by simp
  ultimately show ?thesis by (simp add: unat_word_ariths)
qed

text \<open>
  The copy loop of \<^verbatim>\<open>getData\<close>: \<^verbatim>\<open>for (i = 0; i < datCount - 3; i++)\<close> with \<^verbatim>\<open>uint8_t i\<close>.
  The bound is computed in \<^verbatim>\<open>int\<close> and is negative when \<open>datCount\<close> is below 3.
\<close>

function getData_loop :: "driver \<Rightarrow> 8 word \<Rightarrow> (nat \<Rightarrow> 8 word) \<Rightarrow> (nat \<Rightarrow> 8 word)" where
  "getData_loop s i d =
     (if int (unat i) < int (unat (datCount s)) - 3
      then getData_loop s (i + 1) (d(unat i := bufRead s (datStartPos s) i))
      else d)"
  by pat_completeness auto

termination
proof (relation "measure (\<lambda>(s, i, d). 256 - unat i)")
  fix s :: driver and i :: "8 word" and d :: "nat \<Rightarrow> 8 word"
  assume "int (unat i) < int (unat (datCount s)) - 3"
  moreover have "unat (datCount s) < 256" using unsigned_less [of "datCount s"] by simp
  ultimately have "unat i < 255" by linarith
  then show "((s, i + 1, d(unat i := bufRead s (datStartPos s) i)), (s, i, d))
               \<in> measure (\<lambda>(s, i, d). 256 - unat i)"
    by (simp add: unat_Suc_word8)
qed simp

declare getData_loop.simps [simp del]

definition getData :: "driver \<Rightarrow> bc7215DataVarPkt_t \<Rightarrow> 8 word \<times> bc7215DataVarPkt_t \<times> driver" where
  "getData s target =
     (let s1 = statusUpdate s
      in if dataPktReady s1 then
           (let status = bufBackRead s1 (datEndPos s1) 2;
                t1 = target\<lparr>pktBitLen := bitLen s1\<rparr>;
                t2 = t1\<lparr>pktData := getData_loop s1 0 (pktData t1)\<rparr>
            in (status, t2, s1\<lparr>dataPktReady := False\<rparr>))
         else (0xff, target, s1))"

text \<open>
  \<^verbatim>\<open>getRaw\<close>: the index is a \<^verbatim>\<open>uint16_t\<close> and is narrowed to the \<^verbatim>\<open>uint8_t\<close> parameter
  of \<^verbatim>\<open>bufRead\<close>.
\<close>

function getRaw_loop :: "driver \<Rightarrow> 16 word \<Rightarrow> 16 word \<Rightarrow> (nat \<Rightarrow> 8 word) \<Rightarrow> (nat \<Rightarrow> 8 word)" where
  "getRaw_loop s sz i m =
     (if i < sz
      then getRaw_loop s sz (i + 1) (m(unat i := bufRead s (datStartPos s) (ucast i)))
      else m)"
  by pat_completeness auto

termination
proof (relation "measure (\<lambda>(s, sz, i, m). 65536 - unat i)")
  fix s :: driver and sz i :: "16 word" and m :: "nat \<Rightarrow> 8 word"
  assume "i < sz"
  then have "unat (i + 1) = Suc (unat i)" by (rule unat_Suc_word16)
  moreover have "unat i < 65536" using unsigned_less [of i] by simp
  ultimately show "((s, sz, i + 1, m(unat i := bufRead s (datStartPos s) (ucast i))), (s, sz, i, m))
               \<in> measure (\<lambda>(s, sz, i, m). 65536 - unat i)"
    by simp
qed simp

declare getRaw_loop.simps [simp del]

definition getRaw :: "driver \<Rightarrow> (nat \<Rightarrow> 8 word) \<Rightarrow> 16 word \<Rightarrow> 16 word \<times> (nat \<Rightarrow> 8 word) \<times> driver" where
  "getRaw s addr sz =
     (let s1 = statusUpdate s
      in if dataPktReady s1 then
           (let s2 = s1\<lparr>dataPktReady := False\<rparr>;
                sz1 = (if unat sz > bytesForBits (intIs16Bit s2) (bitLen s2)
                         then of_nat (bytesForBits (intIs16Bit s2) (bitLen s2)) else sz)
            in (sz1, getRaw_loop s2 sz1 0 addr, s2))
         else (0, addr, s1))"

definition formatReady :: "driver \<Rightarrow> bool \<times> driver" where
  "formatReady s = (let s1 = statusUpdate s in (formatPktReady s1, s1))"

definition clrFormat :: "driver \<Rightarrow> driver" where
  "clrFormat s = s\<lparr>formatPktReady := False\<rparr>"

function getFormat_loop :: "driver \<Rightarrow> 8 word \<Rightarrow> (nat \<Rightarrow> 8 word) \<Rightarrow> (nat \<Rightarrow> 8 word)" where
  "getFormat_loop s i f =
     (if unat i < 32
      then getFormat_loop s (i + 1) (f(unat i := bufRead s (startPos s) (i + 1)))
      else f)"
  by pat_completeness auto

termination
  by (relation "measure (\<lambda>(s, i, f). 32 - unat i)") (simp_all add: unat_Suc_word8)

declare getFormat_loop.simps [simp del]

definition getFormat :: "driver \<Rightarrow> bc7215FormatPkt_t \<Rightarrow> 8 word \<times> bc7215FormatPkt_t \<times> driver" where
  "getFormat s target =
     (let s1 = statusUpdate s
      in if formatPktReady s1 then
           (let sig = bufRead s1 (startPos s1) 0;
                t1 = target\<lparr>signature := sig\<rparr>;
                t2 = t1\<lparr>format := getFormat_loop s1 0 (format t1)\<rparr>
            in (sig, t2, s1\<lparr>formatPktReady := False\<rparr>))
         else (0xff, target, s1))"

definition cmdCompleted :: "driver \<Rightarrow> bool \<times> driver" where
  "cmdCompleted s = (let s1 = statusUpdate s in (cmdComplete s1, s1))"

section \<open>Transmitting\<close>

text \<open>
  The senders read their source through a \<^verbatim>\<open>uint8_t*\<close>. Byte \<open>i\<close> of a data packet is
  the low byte of \<open>bitLen\<close>, its high byte, then the data array (the targets are
  little-endian); byte \<open>i\<close> of a format packet is the signature, then the 32 format
  bytes.
\<close>

definition dataPktByte :: "bc7215DataVarPkt_t \<Rightarrow> nat \<Rightarrow> 8 word" where
  "dataPktByte p i =
     (if i = 0 then ucast (pktBitLen p)
      else if i = 1 then ucast (drop_bit 8 (pktBitLen p))
      else pktData p (i - 2))"

definition formatPktByte :: "bc7215FormatPkt_t \<Rightarrow> nat \<Rightarrow> 8 word" where
  "formatPktByte p i = (if i = 0 then signature p else format p (i - 1))"

text \<open>
  The loops \<^verbatim>\<open>for (i = 0; i < n; i++) byteStuffingSend(p[i]);\<close> of \<^verbatim>\<open>loadFormat\<close>,
  \<^verbatim>\<open>irTx\<close> and \<^verbatim>\<open>sendRaw\<close>, over the list of the \<open>n\<close> bytes read; \<open>n\<close> is at most 514,
  below the range of the index in each of them.
\<close>

primrec stuffAll :: "8 word list \<Rightarrow> driver \<Rightarrow> driver option" where
  "stuffAll [] s = Some s"
| "stuffAll (b # bs) s = Option.bind (byteStuffingSend s b) (stuffAll bs)"

definition loadFormat :: "driver \<Rightarrow> bc7215FormatPkt_t \<Rightarrow> driver option" where
  "loadFormat s source =
     (if modIsLow s then
        Option.bind (sendOneByte s 0xf6) (\<lambda>s1.
        Option.bind (sendOneByte s1 0x01) (\<lambda>s2.
        stuffAll (map (formatPktByte source) [0..<sizeof_bc7215FormatPkt_t]) s2))
      else Some s)"

definition irTx :: "driver \<Rightarrow> bc7215DataVarPkt_t \<Rightarrow> driver option" where
  "irTx s source =
     (if modIsLow s then
        (if unat (pktBitLen source) \<ge> 8 \<and> unat (pktBitLen source) < 0x1000 then
           Option.bind (sendOneByte (s\<lparr>cmdComplete := False\<rparr>) 0xf5) (\<lambda>s1.
           Option.bind (sendOneByte s1 0x02) (\<lambda>s2.
           stuffAll (map (dataPktByte source)
                         [0..<2 + (unat (pktBitLen source) + 7) div 8]) s2))
         else Some s)
      else Some s)"

definition sendRaw :: "driver \<Rightarrow> (nat \<Rightarrow> 8 word) \<Rightarrow> 16 word \<Rightarrow> driver option" where
  "sendRaw s source sz =
     (if modIsLow s then
        (if unat sz < 0x200 then
           Option.bind (sendOneByte (s\<lparr>cmdComplete := False\<rparr>) 0xf5) (\<lambda>s1.
           Option.bind (sendOneByte s1 0x02) (\<lambda>s2.
           Option.bind (byteStuffingSend s2 (of_nat (unat sz * 8) AND 0xff)) (\<lambda>s3.
           Option.bind (byteStuffingSend s3 (of_nat (unat sz * 8 div 256))) (\<lambda>s4.
           stuffAll (map source [0..<unat sz]) s4))))
         else Some s)
      else Some s)"

section \<open>The public surface as a whole\<close>

text \<open>
  Every non-static public member function of the class, as a call with its arguments,
  and the driver state a call leaves behind (\<open>None\<close> when the call does not return).
  The static utilities (\<^verbatim>\<open>crc8\<close>, \<^verbatim>\<open>calSize\<close>, \<^verbatim>\<open>copyDpkt\<close>, \<^verbatim>\<open>compareDpkt\<close> and the
  signature-bit setters) have no access to a driver and are not calls in this sense.
\<close>

datatype call =
    SetTx | SetRx | SetShutDown | SetRxMode "8 word" | IsBusy
  | DataReady | ClrData | GetLen | DpketSize
  | GetData bc7215DataVarPkt_t | GetRaw "nat \<Rightarrow> 8 word" "16 word"
  | FormatReady | ClrFormat | GetFormat bc7215FormatPkt_t
  | LoadFormat bc7215FormatPkt_t | IrTx bc7215DataVarPkt_t
  | SendRaw "nat \<Rightarrow> 8 word" "16 word" | CmdCompleted

fun exec :: "call \<Rightarrow> driver \<Rightarrow> driver option" where
  "exec SetTx s = Some (setTx s)"
| "exec SetRx s = Some (setRx s)"
| "exec SetShutDown s = setShutDown s"
| "exec (SetRxMode mode) s = setRxMode s mode"
| "exec IsBusy s = Some (snd (isBusy s))"
| "exec DataReady s = Some (snd (dataReady s))"
| "exec ClrData s = Some (clrData s)"
| "exec GetLen s = Some (snd (getLen s))"
| "exec DpketSize s = Some (snd (dpketSize s))"
| "exec (GetData target) s = Some (snd (snd (getData s target)))"
| "exec (GetRaw addr sz) s = Some (snd (snd (getRaw s addr sz)))"
| "exec FormatReady s = Some (snd (formatReady s))"
| "exec ClrFormat s = Some (clrFormat s)"
| "exec (GetFormat target) s = Some (snd (snd (getFormat s target)))"
| "exec (LoadFormat source) s = loadFormat s source"
| "exec (IrTx source) s = irTx s source"
| "exec (SendRaw source sz) s = sendRaw s source sz"
| "exec CmdCompleted s = Some (snd (cmdCompleted s))"

text \<open>The calls that begin with \<^verbatim>\<open>statusUpdate()\<close>.\<close>

fun drains :: "call \<Rightarrow> bool" where
  "drains IsBusy = True"
| "drains DataReady = True"
| "drains GetLen = True"
| "drains DpketSize = True"
| "drains (GetData target) = True"
| "drains (GetRaw addr sz) = True"
| "drains FormatReady = True"
| "drains (GetFormat target) = True"
| "drains CmdCompleted = True"
| "drains c = False"

section \<open>Construction and concrete drivers\<close>

text \<open>
  The state of a driver object right after construction. The examples declare the
  driver at namespace scope, so every member the constructors do not set starts at
  zero, as does the \<^verbatim>\<open>static\<close> \<open>previousData\<close>. The constructors taking a real MOD pin
  drive it HIGH; with a hard-wired MOD the level is never read. The behaviour of the
  BUSY line is the chip's and is a parameter, and so is the width of \<^verbatim>\<open>int\<close> on the
  board (\<open>short\<close>: 16 bits).
\<close>

definition BC7215_new :: "bool \<Rightarrow> int \<Rightarrow> int \<Rightarrow> (nat \<Rightarrow> bool) \<Rightarrow> driver" where
  "BC7215_new short ModPin BusyPin line =
     \<lparr>intIs16Bit = short, modPin = ModPin, busyPin = BusyPin, modLevel = True,
      busyLine = line, busyReads = 0, uartIn = [], uartOut = [],
      formatPktReady = False, dataPktReady = False, pktStarted = False,
      overLap = False, cmdComplete = False, bitLen = 0,
      circularBuffer = (\<lambda>i. 0),
      startPos = 0, datStartPos = 0, lastWritingPos = 0, datEndPos = 0,
      byteCount = 0, datCount = 0, previousData = 0\<rparr>"

text \<open>A BUSY line that is always LOW.\<close>

definition busyIdle :: "nat \<Rightarrow> bool" where
  "busyIdle t = False"

text \<open>
  Two concrete drivers used to exercise the theorems: one with MOD hard-wired LOW
  (transmit wiring), one with MOD hard-wired HIGH (receive wiring), both without BUSY
  and on a board with a 32-bit \<^verbatim>\<open>int\<close>.
\<close>

definition txDriver :: driver where
  "txDriver = BC7215_new False MOD_LOW BUSY_NC busyIdle"

definition rxDriver :: driver where
  "rxDriver = BC7215_new False MOD_HIGH BUSY_NC busyIdle"

text \<open>The wiring of the ESP8266 example: MOD on GPIO0, BUSY on GPIO4.\<close>

definition gpioDriver :: driver where
  "gpioDriver = BC7215_new False 0 4 busyIdle"

text \<open>
  The driver of the \<^verbatim>\<open>ir_decoder\<close> example, \<^verbatim>\<open>BC7215 irModule(IR_SERIAL, BC7215::MOD_HIGH,
  BC7215::BUSY_NC)\<close>, on the Arduino Leonardo of its connection diagram, where \<^verbatim>\<open>int\<close>
  has 16 bits.
\<close>

definition avrDriver :: driver where
  "avrDriver = BC7215_new True MOD_HIGH BUSY_NC busyIdle"

text \<open>A caller's packet and a caller's memory, filled with \<open>0xEE\<close> before any call.\<close>

definition blankPkt :: bc7215DataVarPkt_t where
  "blankPkt = \<lparr>pktBitLen = 0, pktData = (\<lambda>i. 0xee)\<rparr>"

definition blankMem :: "nat \<Rightarrow> 8 word" where
  "blankMem i = 0xee"

text \<open>
  A byte stream a chip in composite mode can produce: a data packet of 136 bits (17
  payload bytes, status, bit length), a format packet of 33 bytes, a data packet whose
  status byte carries the error bit, and a second format packet.
\<close>

definition compositeTraffic :: "8 word list" where
  "compositeTraffic =
     replicate 17 0x01 @ [0x00, 0x88, 0x00, 0x7a]
     @ replicate 33 0x01 @ [0x7a, 0x7a]
     @ replicate 17 0x01 @ [0x80, 0x88, 0x00, 0x7a]
     @ replicate 28 0x01 @ [0x00, 0x08, 0x00, 0x01, 0x01, 0x7a, 0x7a]"

section \<open>Vocabulary of the statements\<close>

text \<open>
  Names for the pieces of \<^verbatim>\<open>processData\<close> that the statements below talk about: the
  position after \<open>p\<close> in the ring, the 16-bit length assembled from the two bytes at
  backward offsets 0 (high byte) and 1 (low byte) of a position, the test of bit 7 of
  the byte at backward offset 2, and the block run when a byte arrives while no packet
  is in progress.
\<close>

definition nextPos :: "8 word \<Rightarrow> 8 word" where
  "nextPos p = (if unat (p + 1) \<ge> BC7215_BUFFER_SIZE then 0 else p + 1)"

definition lengthField :: "driver \<Rightarrow> 8 word \<Rightarrow> 16 word" where
  "lengthField s pos = push_bit 8 (ucast (bufBackRead s pos 0)) OR ucast (bufBackRead s pos 1)"

definition errorBitClear :: "driver \<Rightarrow> 8 word \<Rightarrow> bool" where
  "errorBitClear s pos \<longleftrightarrow> bufBackRead s pos 2 AND 0x80 = 0"

definition packetStart :: "driver \<Rightarrow> driver" where
  "packetStart s =
     (if \<not> pktStarted s then
        s\<lparr>pktStarted := True, overLap := False, byteCount := 0, bitLen := 0,
          dataPktReady := False, formatPktReady := False,
          startPos := nextPos (lastWritingPos s)\<rparr>
      else s)"

text \<open>
  Two readings of the test a first terminator applies to the packet it closes.
  \<open>dataAccepted\<close> is the test as the code evaluates it, with \<^verbatim>\<open>(temp16 + 7) / 8\<close> in the
  arithmetic of the board. \<open>dataValid\<close> is the test with the expected byte count
  \<open>(bitLength + 7) / 8 + 3\<close> on the integers, the number of bytes a packet of that many
  bits has. \<open>framingInv\<close> says that a ready flag is only ever up right after a terminator, with no
  packet in progress, and format-ready only with a byte count of 33. It holds for a
  freshly constructed driver, \<^verbatim>\<open>processData\<close> keeps it and so does every public call
  (\<open>framingInv_exec\<close>).
\<close>

definition dataAccepted :: "driver \<Rightarrow> bool" where
  "dataAccepted s \<longleftrightarrow>
     \<not> overLap s
     \<and> errorBitClear s (lastWritingPos s)
     \<and> bytesForBits (intIs16Bit s) (lengthField s (lastWritingPos s)) + 3 = unat (byteCount s)"

definition dataValid :: "driver \<Rightarrow> bool" where
  "dataValid s \<longleftrightarrow>
     \<not> overLap s
     \<and> errorBitClear s (lastWritingPos s)
     \<and> (unat (lengthField s (lastWritingPos s)) + 7) div 8 + 3 = unat (byteCount s)"

definition framingInv :: "driver \<Rightarrow> bool" where
  "framingInv s \<longleftrightarrow>
     ((dataPktReady s \<or> formatPktReady s) \<longrightarrow> previousData s = 0x7a \<and> \<not> pktStarted s)
     \<and> (formatPktReady s \<longrightarrow> unat (byteCount s) = sizeof_bc7215FormatPkt_t)"

text \<open>
  \<open>stuffed b\<close> is the byte sequence \<^verbatim>\<open>byteStuffingSend\<close> puts on the wire for \<open>b\<close> (shown
  in \<open>byteStuffingSend_sent\<close>), \<open>wire p\<close> is a payload as it travels, every byte stuffed,
  and \<open>stored r raw b\<close> is the state \<^verbatim>\<open>processData\<close> reaches from \<open>r\<close> when it stores the
  payload byte \<open>b\<close> whose last wire byte was \<open>raw\<close>. \<open>accumulated bs\<close> counts the bytes of a
  terminator-free stream that \<^verbatim>\<open>processData\<close> stores and counts: all of them except
  the escape prefix \<open>0x7B\<close>, which it drops.
\<close>

definition stuffed :: "8 word \<Rightarrow> 8 word list" where
  "stuffed b = (if b = 0x7a \<or> b = 0x7b then [0x7b, b OR 0x80] else [b])"

definition wire :: "8 word list \<Rightarrow> 8 word list" where
  "wire p = concat (map stuffed p)"

definition stored :: "driver \<Rightarrow> 8 word \<Rightarrow> 8 word \<Rightarrow> driver" where
  "stored r raw b =
     (let s1 = packetStart r;
          pos = nextPos (lastWritingPos r);
          s2 = s1\<lparr>previousData := raw, lastWritingPos := pos,
                  circularBuffer := (circularBuffer r)(unat pos := b),
                  byteCount := byteCount s1 + 1\<rparr>
      in if unat (byteCount s2) > BC7215_BUFFER_SIZE then s2\<lparr>overLap := True\<rparr> else s2)"

definition accumulated :: "8 word list \<Rightarrow> nat" where
  "accumulated bs = length (filter (\<lambda>b. b \<noteq> 0x7b) bs)"

text \<open>
  \<open>busyReleased s\<close>: BUSY is not connected, or the chip lets BUSY go LOW again after
  every moment; this is what makes the busy-wait of \<^verbatim>\<open>sendOneByte\<close> return.
  \<open>sent s s' out\<close>: \<open>s'\<close> is \<open>s\<close> after the bytes \<open>out\<close> were written to the UART and the
  BUSY line was read some number of times; nothing else differs.
\<close>

definition busyReleased :: "driver \<Rightarrow> bool" where
  "busyReleased s \<longleftrightarrow> busyPin s = -3 \<or> (\<forall>t. \<exists>k. \<not> busyLine s (t + k))"

definition sent :: "driver \<Rightarrow> driver \<Rightarrow> 8 word list \<Rightarrow> bool" where
  "sent s s' out \<longleftrightarrow> (\<exists>t. s' = s\<lparr>busyReads := t, uartOut := uartOut s @ out\<rparr>)"

section \<open>The byte count of a bit length on the two kinds of board\<close>

text \<open>
  With a wide \<^verbatim>\<open>int\<close> the quotient is the exact one. With a 16-bit \<^verbatim>\<open>int\<close> it is the exact
  one for every bit length up to \<open>0xFFF8\<close>; the seven bit lengths above wrap to a
  quotient of 0.
\<close>

lemma bytesForBits_wide: "bytesForBits False n = (unat n + 7) div 8"
  by (simp add: bytesForBits_def)

lemma bytesForBits_short:
  assumes "unat n \<le> 0xFFF8"
  shows "bytesForBits True n = (unat n + 7) div 8"
proof -
  have "unat (n + 7) = unat n + 7"
    using assms by (simp add: unat_word_ariths)
  then have "unat ((n + 7) div 8) = (unat n + 7) div 8"
    by (simp add: unat_div)
  then show ?thesis by (simp add: bytesForBits_def)
qed

lemma bytesForBits_short_wraps:
  assumes "0xFFF8 < unat n"
  shows "bytesForBits True n = 0" and "(unat n + 7) div 8 = 8192"
proof -
  have lt: "unat n < 65536" using unsigned_less [of n] by simp
  have "unat (n + 7) = unat n + 7 - 65536"
    using assms lt by (simp add: unat_word_ariths mod_if)
  then have "unat ((n + 7) div 8) = (unat n + 7 - 65536) div 8"
    by (simp add: unat_div)
  with assms lt show "bytesForBits True n = 0" by (simp add: bytesForBits_def)
  from assms lt show "(unat n + 7) div 8 = 8192" by simp
qed

lemma bytesForBits_exact:
  "\<not> short \<or> unat n \<le> 0xFFF8 \<Longrightarrow> bytesForBits short n = (unat n + 7) div 8"
  using bytesForBits_short [of n] by (cases short) (auto simp: bytesForBits_wide)

lemma dataAccepted_iff_dataValid:
  "\<not> intIs16Bit s \<or> unat (lengthField s (lastWritingPos s)) \<le> 0xFFF8
   \<Longrightarrow> dataAccepted s \<longleftrightarrow> dataValid s"
  by (simp only: dataAccepted_def dataValid_def bytesForBits_exact)

section \<open>processData, branch by branch\<close>

lemma bufBackRead_cong:
  "circularBuffer s = circularBuffer t \<Longrightarrow> bufBackRead s = bufBackRead t"
  by (intro ext) (simp add: bufBackRead_def)

lemma bufBackRead_update [simp]:
  "bufBackRead (s\<lparr>uartIn := q\<rparr>) = bufBackRead s"
  "bufBackRead (s\<lparr>dataPktReady := f\<rparr>) = bufBackRead s"
  "bufBackRead (s\<lparr>formatPktReady := f\<rparr>) = bufBackRead s"
  by (rule bufBackRead_cong, simp)+

lemma processData_tx:
  "modIsLow s \<Longrightarrow> processData s d = (if d = 0x7a then s\<lparr>cmdComplete := True\<rparr> else s)"
  by (simp add: processData_def)

lemma processData_rx_term_overLap:
  "\<not> modIsLow s \<Longrightarrow> overLap s \<Longrightarrow>
   processData s 0x7a = s\<lparr>previousData := 0x7a, pktStarted := False\<rparr>"
  by (simp add: processData_def)

lemma processData_rx_term_first:
  "\<not> modIsLow s \<Longrightarrow> \<not> overLap s \<Longrightarrow> previousData s \<noteq> 0x7a \<Longrightarrow>
   processData s 0x7a =
     (if errorBitClear s (lastWritingPos s)
         \<and> bytesForBits (intIs16Bit s) (lengthField s (lastWritingPos s)) + 3
             = unat (byteCount s)
      then s\<lparr>bitLen := lengthField s (lastWritingPos s), dataPktReady := True,
             datStartPos := startPos s, datEndPos := lastWritingPos s,
             datCount := byteCount s, previousData := 0x7a, pktStarted := False\<rparr>
      else s\<lparr>previousData := 0x7a, pktStarted := False\<rparr>)"
  by (simp add: processData_def Let_def errorBitClear_def lengthField_def)

lemma processData_rx_term_second:
  "\<not> modIsLow s \<Longrightarrow> \<not> overLap s \<Longrightarrow> previousData s = 0x7a \<Longrightarrow>
   processData s 0x7a =
     (let b = s\<lparr>dataPktReady := False,
                formatPktReady := (unat (byteCount s) = sizeof_bc7215FormatPkt_t
                                   \<or> formatPktReady s),
                previousData := 0x7a, pktStarted := False\<rparr>
      in if unat (byteCount s) + unat (datCount s) \<le> BC7215_BUFFER_SIZE
            \<and> errorBitClear s (datEndPos s)
         then b\<lparr>bitLen := lengthField s (datEndPos s), dataPktReady := True\<rparr>
         else b)"
  by (simp add: processData_def Let_def errorBitClear_def lengthField_def)

lemma processData_rx_escape:
  "\<not> modIsLow s \<Longrightarrow> processData s 0x7b = (packetStart s)\<lparr>previousData := 0x7b\<rparr>"
  by (simp add: processData_def Let_def packetStart_def nextPos_def)

lemma processData_rx_store:
  "\<not> modIsLow s \<Longrightarrow> d \<noteq> 0x7a \<Longrightarrow> d \<noteq> 0x7b \<Longrightarrow>
   processData s d =
     (let s1 = packetStart s;
          pos = nextPos (lastWritingPos s1);
          s2 = s1\<lparr>previousData := d, lastWritingPos := pos,
                  circularBuffer := (circularBuffer s1)
                     (unat pos := (if previousData s1 = 0x7b then d AND 0x7f else d)),
                  byteCount := byteCount s1 + 1\<rparr>
      in if unat (byteCount s2) > BC7215_BUFFER_SIZE then s2\<lparr>overLap := True\<rparr> else s2)"
  by (simp add: processData_def Let_def packetStart_def nextPos_def)

lemma modIsLow_uartIn_update [simp]: "modIsLow (s\<lparr>uartIn := bs\<rparr>) = modIsLow s"
  by (simp add: modIsLow_def)

lemma processData_uartIn_update:
  "processData (s\<lparr>uartIn := bs\<rparr>) d = (processData s d)\<lparr>uartIn := bs\<rparr>"
proof (cases "modIsLow s")
  case True
  then show ?thesis by (simp add: processData_tx)
next
  case rx: False
  consider (over) "d = 0x7a" "overLap s"
    | (first) "d = 0x7a" "\<not> overLap s" "previousData s \<noteq> 0x7a"
    | (second) "d = 0x7a" "\<not> overLap s" "previousData s = 0x7a"
    | (escape) "d = 0x7b"
    | (store) "d \<noteq> 0x7a" "d \<noteq> 0x7b"
    by blast
  then show ?thesis
  proof cases
    case over
    with rx show ?thesis by (simp add: processData_rx_term_overLap)
  next
    case first
    with rx show ?thesis
      by (simp add: processData_rx_term_first errorBitClear_def lengthField_def)
  next
    case second
    with rx show ?thesis
      by (simp add: processData_rx_term_second errorBitClear_def lengthField_def Let_def)
  next
    case escape
    with rx show ?thesis by (simp add: processData_rx_escape packetStart_def)
  next
    case store
    with rx show ?thesis by (simp add: processData_rx_store packetStart_def Let_def)
  qed
qed

lemma packetStart_fields [simp]:
  "pktStarted (packetStart r)"
  "lastWritingPos (packetStart r) = lastWritingPos r"
  "circularBuffer (packetStart r) = circularBuffer r"
  "previousData (packetStart r) = previousData r"
  "modIsLow (packetStart r) = modIsLow r"
  by (simp_all add: packetStart_def modIsLow_def)

lemma packetStart_started: "pktStarted r \<Longrightarrow> packetStart r = r"
  by (simp add: packetStart_def)

lemma packetStart_update_previousData:
  "packetStart (packetStart r\<lparr>previousData := x\<rparr>) = packetStart r\<lparr>previousData := x\<rparr>"
  by (simp add: packetStart_started)

text \<open>
  Writes stay inside the array: the only index \<^verbatim>\<open>processData\<close> writes is the position
  after the last written one, and that is below \<open>BC7215_BUFFER_SIZE\<close>.
\<close>

lemma nextPos_in_range: "unat (nextPos p) < BC7215_BUFFER_SIZE"
  by (simp add: nextPos_def BC7215_BUFFER_SIZE_def BC7215_MAX_RX_DATA_SIZE_def)

lemma processData_write_in_range:
  "circularBuffer (processData s d) i \<noteq> circularBuffer s i \<Longrightarrow> i < BC7215_BUFFER_SIZE"
proof -
  assume changed: "circularBuffer (processData s d) i \<noteq> circularBuffer s i"
  then have rx: "\<not> modIsLow s" by (auto simp: processData_tx split: if_splits)
  have nt: "d \<noteq> 0x7a"
  proof
    assume "d = 0x7a"
    then have "circularBuffer (processData s d) = circularBuffer s"
      using rx
      by (cases "overLap s"; cases "previousData s = 0x7a")
         (simp_all add: processData_rx_term_overLap processData_rx_term_first
            processData_rx_term_second Let_def)
    with changed show False by simp
  qed
  have ne: "d \<noteq> 0x7b"
  proof
    assume "d = 0x7b"
    then have "circularBuffer (processData s d) = circularBuffer s"
      using rx by (simp add: processData_rx_escape)
    with changed show False by simp
  qed
  have "i = unat (nextPos (lastWritingPos s))"
    using changed rx nt ne
    by (simp add: processData_rx_store Let_def split: if_splits)
  then show ?thesis by (simp add: nextPos_in_range)
qed

section \<open>The drain\<close>

lemma statusUpdate_foldl:
  "statusUpdate s = foldl processData (s\<lparr>uartIn := []\<rparr>) (uartIn s)"
proof (induction s rule: statusUpdate.induct)
  case (1 s)
  show ?case
  proof (cases "uartIn s")
    case Nil
    then show ?thesis by (simp add: statusUpdate.simps [of s])
  next
    case (Cons b bs)
    have "statusUpdate s = statusUpdate (processData (s\<lparr>uartIn := bs\<rparr>) b)"
      using Cons by (simp add: statusUpdate.simps [of s])
    also have "\<dots> = foldl processData ((processData (s\<lparr>uartIn := bs\<rparr>) b)\<lparr>uartIn := []\<rparr>) bs"
      using "1.IH" [OF Cons] by simp
    also have "(processData (s\<lparr>uartIn := bs\<rparr>) b)\<lparr>uartIn := []\<rparr>
                 = processData (s\<lparr>uartIn := []\<rparr>) b"
      by (simp add: processData_uartIn_update)
    finally show ?thesis using Cons by simp
  qed
qed

lemma foldl_processData_modIsLow [simp]:
  "modIsLow (foldl processData s bs) = modIsLow s"
  by (induction bs arbitrary: s) simp_all

lemma foldl_processData_intIs16Bit [simp]:
  "intIs16Bit (foldl processData s bs) = intIs16Bit s"
  by (induction bs arbitrary: s) simp_all

lemma modIsLow_txDriver: "modIsLow txDriver"
  by (simp add: txDriver_def BC7215_new_def modIsLow_def MOD_LOW_def)

lemma not_modIsLow_rxDriver: "\<not> modIsLow rxDriver"
  by (simp add: rxDriver_def BC7215_new_def modIsLow_def MOD_HIGH_def)

text \<open>In receive mode \<open>previousData\<close> is the byte processed last, as it came off the wire.\<close>

lemma previousData_processData:
  "\<not> modIsLow s \<Longrightarrow> previousData (processData s d) = d"
  by (simp add: processData_def Let_def)

lemma previousData_foldl:
  "\<not> modIsLow s \<Longrightarrow> bs \<noteq> [] \<Longrightarrow> previousData (foldl processData s bs) = last bs"
  by (induction bs rule: rev_induct) (simp_all add: previousData_processData)

lemma cmdComplete_processData:
  "cmdComplete (processData s d) = (cmdComplete s \<or> (modIsLow s \<and> d = 0x7a))"
  by (simp add: processData_def Let_def)

lemma cmdComplete_foldl:
  "cmdComplete (foldl processData s bs) = (cmdComplete s \<or> (modIsLow s \<and> 0x7a \<in> set bs))"
  by (induction bs arbitrary: s) (auto simp: cmdComplete_processData)

lemma cmdComplete_statusUpdate:
  "cmdComplete (statusUpdate s) = (cmdComplete s \<or> (modIsLow s \<and> 0x7a \<in> set (uartIn s)))"
  by (simp add: statusUpdate_foldl cmdComplete_foldl)

section \<open>Destuffing one payload byte\<close>

lemma decode_plain:
  assumes "\<not> modIsLow r" "previousData r \<noteq> 0x7b" "b \<noteq> 0x7a" "b \<noteq> 0x7b"
  shows "processData r b = stored r b b"
  using assms by (simp add: processData_rx_store stored_def Let_def)

lemma decode_escaped:
  assumes "\<not> modIsLow r" "b = 0x7a \<or> b = 0x7b"
  shows "processData (processData r 0x7b) (b OR 0x80) = stored r (b OR 0x80) b"
proof -
  let ?t = "packetStart r\<lparr>previousData := 0x7b\<rparr>"
  have t: "processData r 0x7b = ?t"
    using assms(1) by (rule processData_rx_escape)
  have rx: "\<not> modIsLow ?t" using assms(1) by (simp add: modIsLow_def packetStart_def)
  have ne: "b OR 0x80 \<noteq> 0x7a" "b OR 0x80 \<noteq> 0x7b" and unesc: "(b OR 0x80) AND 0x7f = b"
    using assms(2) by auto
  show ?thesis
    unfolding t processData_rx_store [OF rx ne]
    by (simp add: packetStart_update_previousData unesc stored_def Let_def)
qed

lemma decode_stuffed:
  assumes "\<not> modIsLow r" "previousData r \<noteq> 0x7b"
  shows "foldl processData r (stuffed b) = stored r (last (stuffed b)) b"
proof (cases "b = 0x7a \<or> b = 0x7b")
  case True
  then show ?thesis using decode_escaped [OF assms(1) True] by (simp add: stuffed_def)
next
  case False
  then show ?thesis using decode_plain [OF assms] by (simp add: stuffed_def)
qed

lemma stored_fields:
  "pktStarted (stored r raw b)"
  "previousData (stored r raw b) = raw"
  "modIsLow (stored r raw b) = modIsLow r"
  "byteCount (stored r raw b) = (if pktStarted r then byteCount r else 0) + 1"
  "dataPktReady (stored r raw b) = (pktStarted r \<and> dataPktReady r)"
  "formatPktReady (stored r raw b) = (pktStarted r \<and> formatPktReady r)"
  "overLap (stored r raw b) =
     ((pktStarted r \<and> overLap r)
      \<or> unat ((if pktStarted r then byteCount r else 0) + 1) > BC7215_BUFFER_SIZE)"
  "datCount (stored r raw b) = datCount r"
  "datStartPos (stored r raw b) = datStartPos r"
  "datEndPos (stored r raw b) = datEndPos r"
  "lastWritingPos (stored r raw b) = nextPos (lastWritingPos r)"
  "circularBuffer (stored r raw b) = (circularBuffer r)(unat (nextPos (lastWritingPos r)) := b)"
  by (simp_all add: stored_def Let_def packetStart_def modIsLow_def)

section \<open>Runs of non-terminator bytes, and the terminators after them\<close>

lemma count_step:
  "(n > BC7215_BUFFER_SIZE \<or> unat (of_nat n + 1 :: 8 word) > BC7215_BUFFER_SIZE)
     \<longleftrightarrow> Suc n > BC7215_BUFFER_SIZE"
proof (cases "n < 255")
  case True
  then have "unat (of_nat n + 1 :: 8 word) = Suc n"
    by (simp add: unat_word_ariths unat_of_nat)
  then show ?thesis by auto
next
  case False
  then show ?thesis by (simp add: BC7215_BUFFER_SIZE_def BC7215_MAX_RX_DATA_SIZE_def)
qed

lemma accumulated_snoc:
  "accumulated (bs @ [b]) = accumulated bs + (if b = 0x7b then 0 else 1)"
  by (simp add: accumulated_def)

lemma step_nonterminator:
  assumes "\<not> modIsLow t" "b \<noteq> 0x7a"
  shows "\<not> modIsLow (processData t b)" "pktStarted (processData t b)"
    "byteCount (processData t b) = byteCount (packetStart t) + (if b = 0x7b then 0 else 1)"
    "overLap (processData t b)
       = (overLap (packetStart t)
          \<or> (b \<noteq> 0x7b \<and> unat (byteCount (packetStart t) + 1) > BC7215_BUFFER_SIZE))"
    "dataPktReady (processData t b) = dataPktReady (packetStart t)"
    "formatPktReady (processData t b) = formatPktReady (packetStart t)"
    "previousData (processData t b) = b"
    "datCount (processData t b) = datCount t"
    "datStartPos (processData t b) = datStartPos t"
    "datEndPos (processData t b) = datEndPos t"
proof -
  show "\<not> modIsLow (processData t b)" using assms(1) by simp
  show "pktStarted (processData t b)"
    "byteCount (processData t b) = byteCount (packetStart t) + (if b = 0x7b then 0 else 1)"
    "overLap (processData t b)
       = (overLap (packetStart t)
          \<or> (b \<noteq> 0x7b \<and> unat (byteCount (packetStart t) + 1) > BC7215_BUFFER_SIZE))"
    "dataPktReady (processData t b) = dataPktReady (packetStart t)"
    "formatPktReady (processData t b) = formatPktReady (packetStart t)"
    "previousData (processData t b) = b"
    "datCount (processData t b) = datCount t"
    "datStartPos (processData t b) = datStartPos t"
    "datEndPos (processData t b) = datEndPos t"
    using assms
    by (cases "b = 0x7b";
        simp add: processData_rx_escape processData_rx_store Let_def packetStart_def)+
qed

lemma after_bytes:
  assumes rx: "\<not> modIsLow r" and idle: "\<not> pktStarted r"
  shows "bs \<noteq> [] \<Longrightarrow> 0x7a \<notin> set bs \<Longrightarrow>
         (let t = foldl processData r bs
          in \<not> modIsLow t \<and> pktStarted t \<and> byteCount t = of_nat (accumulated bs)
             \<and> (overLap t \<longleftrightarrow> accumulated bs > BC7215_BUFFER_SIZE)
             \<and> \<not> dataPktReady t \<and> \<not> formatPktReady t
             \<and> previousData t \<noteq> 0x7a
             \<and> datCount t = datCount r \<and> datStartPos t = datStartPos r
             \<and> datEndPos t = datEndPos r)"
proof (induction bs rule: rev_induct)
  case Nil
  then show ?case by simp
next
  case (snoc b bs)
  then have b: "b \<noteq> 0x7a" and bs: "0x7a \<notin> set bs" by auto
  show ?case
  proof (cases "bs = []")
    case True
    have start: "byteCount (packetStart r) = 0" "\<not> overLap (packetStart r)"
      "\<not> dataPktReady (packetStart r)" "\<not> formatPktReady (packetStart r)"
      using idle by (simp_all add: packetStart_def)
    show ?thesis
      using True b start step_nonterminator [OF rx b]
      by (simp add: Let_def accumulated_def BC7215_BUFFER_SIZE_def BC7215_MAX_RX_DATA_SIZE_def)
  next
    case False
    define t where "t = foldl processData r bs"
    have t: "\<not> modIsLow t" "pktStarted t" "byteCount t = of_nat (accumulated bs)"
      "overLap t \<longleftrightarrow> accumulated bs > BC7215_BUFFER_SIZE"
      "\<not> dataPktReady t" "\<not> formatPktReady t"
      "datCount t = datCount r" "datStartPos t = datStartPos r" "datEndPos t = datEndPos r"
      using snoc.IH [OF False bs] by (simp_all add: t_def Let_def)
    have same: "packetStart t = t" using t(2) by (rule packetStart_started)
    have run: "foldl processData r (bs @ [b]) = processData t b" by (simp add: t_def)
    show ?thesis
      unfolding run Let_def
      using step_nonterminator [OF t(1) b] t b count_step [of "accumulated bs"]
      by (simp add: same accumulated_snoc)
  qed
qed

lemma wire_facts:
  "0x7a \<notin> set (wire p)" "accumulated (wire p) = length p" "wire p = [] \<longleftrightarrow> p = []"
proof -
  have one: "0x7a \<notin> set (stuffed b) \<and> accumulated (stuffed b) = 1 \<and> stuffed b \<noteq> []" for b
    by (auto simp: stuffed_def accumulated_def)
  show "0x7a \<notin> set (wire p)" using one by (auto simp: wire_def)
  show "accumulated (wire p) = length p"
  proof (induction p)
    case Nil
    then show ?case by (simp add: wire_def accumulated_def)
  next
    case (Cons b p)
    have "accumulated (wire (b # p)) = accumulated (stuffed b) + accumulated (wire p)"
      by (simp add: wire_def accumulated_def)
    with Cons one show ?case by simp
  qed
  show "wire p = [] \<longleftrightarrow> p = []" using one by (cases p) (simp_all add: wire_def)
qed

lemma terminators_overLap:
  assumes "\<not> modIsLow t" "overLap t"
  shows "foldl processData t (replicate k 0x7a)
           = (if k = 0 then t else t\<lparr>previousData := 0x7a, pktStarted := False\<rparr>)"
proof (induction k)
  case 0
  then show ?case by simp
next
  case (Suc k)
  have "replicate (Suc k) (0x7a :: 8 word) = replicate k 0x7a @ [0x7a]"
    by (simp add: replicate_append_same)
  then have "foldl processData t (replicate (Suc k) 0x7a)
          = processData (foldl processData t (replicate k 0x7a)) 0x7a"
    by (simp only: foldl_append foldl.simps)
  also have "\<dots> = t\<lparr>previousData := 0x7a, pktStarted := False\<rparr>"
    using assms Suc.IH
    by (cases "k = 0") (simp_all add: processData_rx_term_overLap modIsLow_def)
  finally show ?case by simp
qed

lemma after_first_terminator:
  assumes "\<not> modIsLow t" "\<not> overLap t" "previousData t \<noteq> 0x7a"
  shows "\<not> modIsLow (processData t 0x7a)" "\<not> overLap (processData t 0x7a)"
    "previousData (processData t 0x7a) = 0x7a" "byteCount (processData t 0x7a) = byteCount t"
    "formatPktReady (processData t 0x7a) = formatPktReady t"
proof -
  show "\<not> modIsLow (processData t 0x7a)" using assms(1) by simp
  show "\<not> overLap (processData t 0x7a)"
    "previousData (processData t 0x7a) = 0x7a" "byteCount (processData t 0x7a) = byteCount t"
    "formatPktReady (processData t 0x7a) = formatPktReady t"
    using assms by (simp_all add: processData_rx_term_first)
qed

lemma formatPktReady_second:
  "\<not> modIsLow s \<Longrightarrow> \<not> overLap s \<Longrightarrow> previousData s = 0x7a \<Longrightarrow>
   formatPktReady (processData s 0x7a)
     = (unat (byteCount s) = sizeof_bc7215FormatPkt_t \<or> formatPktReady s)"
  by (simp add: processData_rx_term_second Let_def)

lemma format_after_bytes:
  assumes rx: "\<not> modIsLow r" and idle: "\<not> pktStarted r"
    and ne: "bs \<noteq> []" and nt: "0x7a \<notin> set bs"
  shows "formatPktReady (foldl processData r (bs @ [0x7a, 0x7a])) \<longleftrightarrow> accumulated bs = 33"
proof -
  define t where "t = foldl processData r bs"
  have t: "\<not> modIsLow t" "byteCount t = of_nat (accumulated bs)"
    "overLap t \<longleftrightarrow> accumulated bs > BC7215_BUFFER_SIZE"
    "\<not> formatPktReady t" "previousData t \<noteq> 0x7a"
    using after_bytes [OF rx idle ne nt] by (simp_all add: t_def Let_def)
  have run: "foldl processData r (bs @ [0x7a, 0x7a])
               = processData (processData t 0x7a) 0x7a"
    by (simp add: t_def)
  show ?thesis
  proof (cases "overLap t")
    case True
    then have "accumulated bs \<noteq> 33"
      using t(3) by (simp add: BC7215_BUFFER_SIZE_def BC7215_MAX_RX_DATA_SIZE_def)
    moreover have "processData (processData t 0x7a) 0x7a
                     = t\<lparr>previousData := 0x7a, pktStarted := False\<rparr>"
      using terminators_overLap [OF t(1) True, of 2] by (simp add: numeral_2_eq_2)
    ultimately show ?thesis unfolding run using t(4) by simp
  next
    case False
    then have small: "accumulated bs \<le> 84"
      using t(3) by (simp add: BC7215_BUFFER_SIZE_def BC7215_MAX_RX_DATA_SIZE_def)
    then have count: "unat (byteCount t) = accumulated bs"
      by (simp add: t(2) unat_of_nat)
    define u where "u = processData t 0x7a"
    have u: "\<not> modIsLow u" "\<not> overLap u" "previousData u = 0x7a"
      "\<not> formatPktReady u" "byteCount u = byteCount t"
      using after_first_terminator [OF t(1) False t(5)] t(4) by (simp_all add: u_def)
    have "formatPktReady (processData u 0x7a) \<longleftrightarrow> unat (byteCount u) = sizeof_bc7215FormatPkt_t"
      using u by (simp add: formatPktReady_second)
    then show ?thesis
      unfolding run u_def [symmetric]
      by (simp add: u(5) count sizeof_bc7215FormatPkt_t_def)
  qed
qed

lemma overflow_after_bytes:
  assumes "\<not> modIsLow r" "\<not> pktStarted r" "0x7a \<notin> set bs"
    "accumulated bs > BC7215_BUFFER_SIZE"
  shows "overLap (foldl processData r (bs @ replicate k 0x7a))"
    "\<not> dataPktReady (foldl processData r (bs @ replicate k 0x7a))"
    "\<not> formatPktReady (foldl processData r (bs @ replicate k 0x7a))"
proof -
  define t where "t = foldl processData r bs"
  have ne: "bs \<noteq> []" using assms(4) by (auto simp: accumulated_def)
  have t: "\<not> modIsLow t" "overLap t" "\<not> dataPktReady t" "\<not> formatPktReady t"
    using after_bytes [OF assms(1,2) ne assms(3)] assms(4) by (simp_all add: t_def Let_def)
  have "foldl processData r (bs @ replicate k 0x7a) = foldl processData t (replicate k 0x7a)"
    by (simp add: t_def)
  also have "\<dots> = (if k = 0 then t else t\<lparr>previousData := 0x7a, pktStarted := False\<rparr>)"
    by (rule terminators_overLap [OF t(1,2)])
  finally have run: "foldl processData r (bs @ replicate k 0x7a)
                       = (if k = 0 then t else t\<lparr>previousData := 0x7a, pktStarted := False\<rparr>)" .
  show "overLap (foldl processData r (bs @ replicate k 0x7a))"
    "\<not> dataPktReady (foldl processData r (bs @ replicate k 0x7a))"
    "\<not> formatPktReady (foldl processData r (bs @ replicate k 0x7a))"
    unfolding run using t by simp_all
qed

lemma overLap_cleared_only_at_start:
  assumes "overLap s" "\<not> overLap (processData s d)"
  shows "\<not> modIsLow s \<and> d \<noteq> 0x7a \<and> \<not> pktStarted s"
proof -
  have tx: "\<not> modIsLow s"
    using assms by (auto simp: processData_tx split: if_splits)
  have nt: "d \<noteq> 0x7a"
    using assms tx by (auto simp: processData_rx_term_overLap)
  have "\<not> pktStarted s"
  proof
    assume started: "pktStarted s"
    show False
    proof (cases "d = 0x7b")
      case True
      with assms tx started show False
        by (simp add: processData_rx_escape packetStart_started)
    next
      case False
      with assms tx nt started show False
        by (simp add: processData_rx_store packetStart_started Let_def split: if_splits)
    qed
  qed
  with tx nt show ?thesis by simp
qed

lemma overLap_terminator:
  assumes "\<not> modIsLow s" "overLap s"
  shows "overLap (processData s 0x7a)" "dataPktReady (processData s 0x7a) = dataPktReady s"
    "formatPktReady (processData s 0x7a) = formatPktReady s"
  using assms by (simp_all add: processData_rx_term_overLap)

section \<open>The framing invariant\<close>

lemma framingInv_processData:
  assumes "framingInv s"
  shows "framingInv (processData s d)"
proof (cases "modIsLow s")
  case True
  with assms show ?thesis by (simp add: processData_tx framingInv_def)
next
  case rx: False
  consider (over) "d = 0x7a" "overLap s"
    | (first) "d = 0x7a" "\<not> overLap s" "previousData s \<noteq> 0x7a"
    | (second) "d = 0x7a" "\<not> overLap s" "previousData s = 0x7a"
    | (escape) "d = 0x7b"
    | (store) "d \<noteq> 0x7a" "d \<noteq> 0x7b"
    by blast
  then show ?thesis
  proof cases
    case over
    with rx assms show ?thesis by (simp add: processData_rx_term_overLap framingInv_def)
  next
    case first
    with rx assms show ?thesis by (simp add: processData_rx_term_first framingInv_def)
  next
    case second
    with rx assms show ?thesis
      by (simp add: processData_rx_term_second framingInv_def Let_def)
  next
    case escape
    with rx assms show ?thesis
      by (auto simp: processData_rx_escape framingInv_def packetStart_def)
  next
    case store
    with rx assms show ?thesis
      by (auto simp: processData_rx_store framingInv_def packetStart_def Let_def)
  qed
qed

lemma framingInv_foldl: "framingInv s \<Longrightarrow> framingInv (foldl processData s bs)"
  by (induction bs arbitrary: s) (simp_all add: framingInv_processData)

lemma framingInv_new: "framingInv (BC7215_new w m b l)"
  by (simp add: framingInv_def BC7215_new_def)

lemma format_second_iff:
  assumes "\<not> modIsLow s0" "framingInv s0" "s = foldl processData s0 bs"
    "\<not> overLap s" "previousData s = 0x7a"
  shows "formatPktReady (processData s 0x7a) \<longleftrightarrow> unat (byteCount s) = 33"
proof -
  have rx: "\<not> modIsLow s" using assms(1,3) by simp
  have "framingInv s" using assms(2,3) by (simp add: framingInv_foldl)
  then have old: "formatPktReady s \<longrightarrow> unat (byteCount s) = 33"
    by (simp add: framingInv_def sizeof_bc7215FormatPkt_t_def)
  have "formatPktReady (processData s 0x7a) \<longleftrightarrow> unat (byteCount s) = 33 \<or> formatPktReady s"
    by (simp add: formatPktReady_second [OF rx assms(4,5)] sizeof_bc7215FormatPkt_t_def)
  with old show ?thesis by blast
qed

section \<open>Sending: what a call writes and when it returns\<close>

lemma waitBusy_returns: "\<not> line (t + k) \<Longrightarrow> \<exists>t'. waitBusy line t = Some t'"
proof (induction k arbitrary: t)
  case 0
  then show ?case by (simp add: waitBusy.simps [of line t])
next
  case (Suc k)
  then have "\<not> line (Suc t + k)" by simp
  then obtain t' where "waitBusy line (Suc t) = Some t'" using Suc.IH by blast
  then show ?case by (cases "line t") (simp_all add: waitBusy.simps [of line t])
qed

text \<open>
  The busy-wait returns only if BUSY goes LOW at some read; on a line that stays HIGH
  it never does.
\<close>

lemma waitBusy_Some:
  assumes "waitBusy line t = Some t'"
  shows "\<exists>k. \<not> line (t + k)"
proof (rule waitBusy.raw_induct [where P = "\<lambda>line t t'. \<exists>k. \<not> line (t + k)", OF _ assms])
  fix w :: "(nat \<Rightarrow> bool) \<Rightarrow> nat \<Rightarrow> nat option" and line t y
  assume IH: "\<And>l u z. w l u = Some z \<Longrightarrow> \<exists>k. \<not> l (u + k)"
    and step: "(if line t then w line (Suc t) else Some (Suc t)) = Some y"
  show "\<exists>k. \<not> line (t + k)"
  proof (cases "line t")
    case True
    with step have "w line (Suc t) = Some y" by simp
    then obtain k where "\<not> line (Suc t + k)" using IH by blast
    then have "\<not> line (t + Suc k)" by simp
    then show ?thesis by blast
  next
    case False
    then have "\<not> line (t + 0)" by simp
    then show ?thesis by blast
  qed
qed

lemma waitBusy_stuck: "(\<forall>k. line (t + k)) \<Longrightarrow> waitBusy line t = None"
  using waitBusy_Some [of line t] by (cases "waitBusy line t") auto

lemma sent_refl: "sent s s []"
  unfolding sent_def by (rule exI [of _ "busyReads s"]) simp

lemma sent_trans: "sent s s1 a \<Longrightarrow> sent s1 s2 b \<Longrightarrow> sent s s2 (a @ b)"
  unfolding sent_def by auto

lemma sent_fields:
  assumes "sent s s' out"
  shows "uartOut s' = uartOut s @ out" "cmdComplete s' = cmdComplete s"
    "overLap s' = overLap s" "modIsLow s' = modIsLow s" "busyReleased s' = busyReleased s"
    "uartIn s' = uartIn s" "framingInv s' = framingInv s"
  using assms by (auto simp: sent_def modIsLow_def busyReleased_def framingInv_def)

lemma sent_after_update:
  "sent (s\<lparr>cmdComplete := f\<rparr>) s' out \<Longrightarrow>
     uartOut s' = uartOut s @ out \<and> cmdComplete s' = f \<and> overLap s' = overLap s
     \<and> modIsLow s' = modIsLow s \<and> uartIn s' = uartIn s"
  by (auto simp: sent_def modIsLow_def)

lemma sendOneByte_sent: "sendOneByte s d = Some s' \<Longrightarrow> sent s s' [d]"
proof (cases "busyPin s \<noteq> -3")
  case True
  assume "sendOneByte s d = Some s'"
  with True show ?thesis
    by (auto simp: sendOneByte_def sent_def split: option.splits)
next
  case False
  assume "sendOneByte s d = Some s'"
  with False have "s' = s\<lparr>busyReads := busyReads s, uartOut := uartOut s @ [d]\<rparr>"
    by (simp add: sendOneByte_def)
  then show ?thesis unfolding sent_def by blast
qed

lemma sendOneByte_returns: "busyReleased s \<Longrightarrow> \<exists>s'. sendOneByte s d = Some s'"
proof (cases "busyPin s \<noteq> -3")
  case True
  assume "busyReleased s"
  with True obtain k where "\<not> busyLine s (busyReads s + k)"
    by (auto simp: busyReleased_def)
  then obtain t' where "waitBusy (busyLine s) (busyReads s) = Some t'"
    using waitBusy_returns by blast
  with True show ?thesis by (simp add: sendOneByte_def)
next
  case False
  then show ?thesis by (simp add: sendOneByte_def)
qed

lemma byteStuffingSend_sent:
  assumes "byteStuffingSend s d = Some s'"
  shows "sent s s' (stuffed d)"
proof (cases "d = 0x7a \<or> d = 0x7b")
  case True
  with assms obtain s1 where s1: "sendOneByte s 0x7b = Some s1"
    and s': "sendOneByte s1 (d OR 0x80) = Some s'"
    by (auto simp: byteStuffingSend_def Option.bind_eq_Some_conv)
  have "sent s s' ([0x7b] @ [d OR 0x80])"
    using sendOneByte_sent [OF s1] sendOneByte_sent [OF s'] by (rule sent_trans)
  with True show ?thesis by (simp add: stuffed_def)
next
  case False
  with assms have "sendOneByte s d = Some s'" by (simp add: byteStuffingSend_def)
  then have "sent s s' [d]" by (rule sendOneByte_sent)
  with False show ?thesis by (simp add: stuffed_def)
qed

lemma byteStuffingSend_returns:
  assumes "busyReleased s"
  shows "\<exists>s'. byteStuffingSend s d = Some s'"
proof (cases "d = 0x7a \<or> d = 0x7b")
  case True
  obtain s1 where s1: "sendOneByte s 0x7b = Some s1"
    using sendOneByte_returns [OF assms] by blast
  have "busyReleased s1"
    using sent_fields(5) [OF sendOneByte_sent [OF s1]] assms by simp
  then obtain s2 where "sendOneByte s1 (d OR 0x80) = Some s2"
    using sendOneByte_returns by blast
  with True s1 show ?thesis by (simp add: byteStuffingSend_def)
next
  case False
  then show ?thesis using sendOneByte_returns [OF assms] by (simp add: byteStuffingSend_def)
qed

lemma stuffAll_sent: "stuffAll bs s = Some s' \<Longrightarrow> sent s s' (wire bs)"
proof (induction bs arbitrary: s)
  case Nil
  then show ?case by (simp add: wire_def sent_refl)
next
  case (Cons b bs)
  then obtain s1 where s1: "byteStuffingSend s b = Some s1" and rest: "stuffAll bs s1 = Some s'"
    by (auto simp: Option.bind_eq_Some_conv)
  have "sent s s' (stuffed b @ wire bs)"
    using byteStuffingSend_sent [OF s1] Cons.IH [OF rest] by (rule sent_trans)
  then show ?case by (simp add: wire_def)
qed

lemma two_bytes_sent:
  assumes "Option.bind (sendOneByte s a) (\<lambda>s1. sendOneByte s1 b) = Some s'"
  shows "sent s s' [a, b]"
proof -
  from assms obtain s1 where s1: "sendOneByte s a = Some s1" and s': "sendOneByte s1 b = Some s'"
    by (auto simp: Option.bind_eq_Some_conv)
  have "sent s s' ([a] @ [b])"
    using sendOneByte_sent [OF s1] sendOneByte_sent [OF s'] by (rule sent_trans)
  then show ?thesis by simp
qed

lemma setRxMode_sent: "setRxMode s m = Some s' \<Longrightarrow> \<exists>out. sent s s' out"
  by (cases "modIsHigh s") (auto simp: setRxMode_def dest: sendOneByte_sent intro: sent_refl)

lemma setShutDown_sent:
  assumes "setShutDown s = Some s'"
  shows "sent (s\<lparr>cmdComplete := False\<rparr>) s' (if modIsLow s then [0xf7, 0x00] else [])"
proof (cases "modIsLow s")
  case True
  with assms obtain s2 where s2: "Option.bind (sendOneByte s 0xf7) (\<lambda>s1. sendOneByte s1 0x00) = Some s2"
    and s': "s' = s2\<lparr>cmdComplete := False\<rparr>"
    by (auto simp: setShutDown_def Option.bind_eq_Some_conv)
  have "sent s s2 [0xf7, 0x00]" using s2 by (rule two_bytes_sent)
  then obtain t where "s2 = s\<lparr>busyReads := t, uartOut := uartOut s @ [0xf7, 0x00]\<rparr>"
    by (auto simp: sent_def)
  with True s' show ?thesis
    unfolding sent_def by (intro exI [of _ t]) simp
next
  case False
  with assms have "s' = s\<lparr>cmdComplete := False\<rparr>" by (simp add: setShutDown_def)
  with False show ?thesis by (simp add: sent_refl)
qed

lemma setShutDown_returns:
  assumes "modIsLow s" "busyReleased s"
  shows "\<exists>s''. setShutDown s = Some s'' \<and> uartOut s'' = uartOut s @ [0xf7, 0x00]"
proof -
  obtain s1 where s1: "sendOneByte s 0xf7 = Some s1"
    using sendOneByte_returns [OF assms(2)] by blast
  have "busyReleased s1"
    using sent_fields(5) [OF sendOneByte_sent [OF s1]] assms(2) by simp
  then obtain s2 where s2: "sendOneByte s1 0x00 = Some s2"
    using sendOneByte_returns by blast
  have run: "setShutDown s = Some (s2\<lparr>cmdComplete := False\<rparr>)"
    using assms(1) s1 s2 by (simp add: setShutDown_def)
  then have "uartOut (s2\<lparr>cmdComplete := False\<rparr>) = uartOut s @ [0xf7, 0x00]"
    using sent_after_update [OF setShutDown_sent, of s] assms(1) by simp
  with run show ?thesis by blast
qed

lemma loadFormat_sent: "loadFormat s f = Some s' \<Longrightarrow> \<exists>out. sent s s' out"
proof (cases "modIsLow s")
  case True
  assume "loadFormat s f = Some s'"
  with True obtain s1 s2 where "sendOneByte s 0xf6 = Some s1" "sendOneByte s1 0x01 = Some s2"
    "stuffAll (map (formatPktByte f) [0..<sizeof_bc7215FormatPkt_t]) s2 = Some s'"
    by (auto simp: loadFormat_def Option.bind_eq_Some_conv)
  then show ?thesis
    by (blast dest: sendOneByte_sent stuffAll_sent intro: sent_trans)
next
  case False
  assume "loadFormat s f = Some s'"
  with False show ?thesis by (auto simp: loadFormat_def intro: sent_refl)
qed

lemma irTx_sent:
  assumes "irTx s p = Some s'"
  shows "(\<exists>out. sent s s' out) \<or> (\<exists>out. sent (s\<lparr>cmdComplete := False\<rparr>) s' out)"
proof (cases "modIsLow s \<and> unat (pktBitLen p) \<ge> 8 \<and> unat (pktBitLen p) < 0x1000")
  case True
  with assms obtain s1 s2 where "sendOneByte (s\<lparr>cmdComplete := False\<rparr>) 0xf5 = Some s1"
    "sendOneByte s1 0x02 = Some s2"
    "stuffAll (map (dataPktByte p) [0..<2 + (unat (pktBitLen p) + 7) div 8]) s2 = Some s'"
    by (auto simp: irTx_def Option.bind_eq_Some_conv)
  then show ?thesis
    by (blast dest: sendOneByte_sent stuffAll_sent intro: sent_trans)
next
  case False
  with assms have "s' = s" by (auto simp: irTx_def split: if_splits)
  then show ?thesis by (auto intro: sent_refl)
qed

lemma sendRaw_sent:
  assumes "sendRaw s m sz = Some s'"
  shows "(\<exists>out. sent s s' out) \<or> (\<exists>out. sent (s\<lparr>cmdComplete := False\<rparr>) s' out)"
proof (cases "modIsLow s \<and> unat sz < 0x200")
  case True
  with assms obtain s1 s2 s3 s4 where "sendOneByte (s\<lparr>cmdComplete := False\<rparr>) 0xf5 = Some s1"
    "sendOneByte s1 0x02 = Some s2"
    "byteStuffingSend s2 (of_nat (unat sz * 8) AND 0xff) = Some s3"
    "byteStuffingSend s3 (of_nat (unat sz * 8 div 256)) = Some s4"
    "stuffAll (map m [0..<unat sz]) s4 = Some s'"
    by (auto simp: sendRaw_def Option.bind_eq_Some_conv)
  then show ?thesis
    by (blast dest: sendOneByte_sent byteStuffingSend_sent stuffAll_sent intro: sent_trans)
next
  case False
  with assms have "s' = s" by (auto simp: sendRaw_def split: if_splits)
  then show ?thesis by (auto intro: sent_refl)
qed

section \<open>Every public call\<close>

lemma exec_drains:
  assumes "drains c"
  shows "\<exists>s1. exec c s = Some s1
           \<and> (s1 = statusUpdate s \<or> s1 = (statusUpdate s)\<lparr>dataPktReady := False\<rparr>
               \<or> s1 = (statusUpdate s)\<lparr>formatPktReady := False\<rparr>)"
  using assms
  by (cases c)
     (simp_all add: isBusy_def dataReady_def getLen_def dpketSize_def getData_def getRaw_def
        formatReady_def getFormat_def cmdCompleted_def Let_def)

lemma exec_other:
  assumes "\<not> drains c" "exec c s = Some s'"
  shows "overLap s' = overLap s" "cmdComplete s' \<longrightarrow> cmdComplete s \<or> c = SetTx"
proof -
  have "overLap s' = overLap s \<and> (cmdComplete s' \<longrightarrow> cmdComplete s \<or> c = SetTx)"
  proof (cases c)
    case SetTx
    with assms show ?thesis by (cases "0 \<le> modPin s") (auto simp: setTx_def)
  next
    case SetRx
    with assms show ?thesis by (cases "0 \<le> modPin s") (auto simp: setRx_def)
  next
    case SetShutDown
    with assms show ?thesis using sent_after_update [OF setShutDown_sent, of s s'] by simp
  next
    case (SetRxMode m)
    with assms show ?thesis using setRxMode_sent [of s m s'] by (auto dest: sent_fields)
  next
    case ClrData
    with assms show ?thesis by (auto simp: clrData_def)
  next
    case ClrFormat
    with assms show ?thesis by (auto simp: clrFormat_def)
  next
    case (LoadFormat f)
    with assms show ?thesis using loadFormat_sent [of s f s'] by (auto dest: sent_fields)
  next
    case (IrTx p)
    with assms show ?thesis
      using irTx_sent [of s p s'] by (auto dest: sent_fields sent_after_update)
  next
    case (SendRaw m sz)
    with assms show ?thesis
      using sendRaw_sent [of s m sz s'] by (auto dest: sent_fields sent_after_update)
  qed (use assms in simp_all)
  then show "overLap s' = overLap s" "cmdComplete s' \<longrightarrow> cmdComplete s \<or> c = SetTx"
    by simp_all
qed

lemma exec_overLap:
  assumes "exec c s = Some s'"
  shows "overLap s' = (if drains c then overLap (foldl processData (s\<lparr>uartIn := []\<rparr>) (uartIn s))
                       else overLap s)"
proof (cases "drains c")
  case True
  then have "overLap s' = overLap (statusUpdate s)"
    using exec_drains [OF True, of s] assms by auto
  with True show ?thesis by (simp add: statusUpdate_foldl)
next
  case False
  then show ?thesis using exec_other(1) [OF False assms] by simp
qed

lemma exec_sets_cmdComplete:
  assumes "\<not> cmdComplete t" "exec c t = Some t'" "cmdComplete t'"
  shows "c = SetTx \<or> (drains c \<and> modIsLow t \<and> 0x7a \<in> set (uartIn t))"
proof (cases "drains c")
  case True
  then have "cmdComplete t' = cmdComplete (statusUpdate t)"
    using exec_drains [OF True, of t] assms(2) by auto
  with assms(1,3) True show ?thesis by (simp add: cmdComplete_statusUpdate)
next
  case False
  then show ?thesis using exec_other(2) [OF False assms(2)] assms(1,3) by simp
qed

lemma framingInv_exec:
  assumes "framingInv s" "exec c s = Some s'"
  shows "framingInv s'"
proof (cases "drains c")
  case True
  have "framingInv (s\<lparr>uartIn := []\<rparr>)"
    using assms(1) by (simp add: framingInv_def)
  then have "framingInv (statusUpdate s)"
    by (simp add: statusUpdate_foldl framingInv_foldl)
  moreover have "s' = statusUpdate s \<or> s' = (statusUpdate s)\<lparr>dataPktReady := False\<rparr>
                 \<or> s' = (statusUpdate s)\<lparr>formatPktReady := False\<rparr>"
    using exec_drains [OF True, of s] assms(2) by auto
  ultimately show ?thesis by (auto simp: framingInv_def)
next
  case False
  have upd: "framingInv (s\<lparr>cmdComplete := f\<rparr>) = framingInv s" for f
    by (simp add: framingInv_def)
  show ?thesis
  proof (cases c)
    case SetTx
    with assms show ?thesis by (cases "0 \<le> modPin s") (auto simp: setTx_def framingInv_def)
  next
    case SetRx
    with assms show ?thesis by (cases "0 \<le> modPin s") (auto simp: setRx_def framingInv_def)
  next
    case SetShutDown
    with assms show ?thesis using sent_fields(7) [OF setShutDown_sent, of s s'] upd by simp
  next
    case (SetRxMode m)
    with assms show ?thesis using setRxMode_sent [of s m s'] by (auto dest: sent_fields(7))
  next
    case ClrData
    with assms show ?thesis by (auto simp: clrData_def framingInv_def)
  next
    case ClrFormat
    with assms show ?thesis by (auto simp: clrFormat_def framingInv_def)
  next
    case (LoadFormat f)
    with assms show ?thesis using loadFormat_sent [of s f s'] by (auto dest: sent_fields(7))
  next
    case (IrTx p)
    with assms show ?thesis
      using irTx_sent [of s p s'] upd by (auto dest: sent_fields(7))
  next
    case (SendRaw m sz)
    with assms show ?thesis
      using sendRaw_sent [of s m sz s'] upd by (auto dest: sent_fields(7))
  qed (use False in simp_all)
qed

section \<open>The copy loop of getData in closed form\<close>

lemma getData_loop_result:
  "getData_loop s i d =
     (\<lambda>k. if unat i \<le> k \<and> int k < int (unat (datCount s)) - 3
          then bufRead s (datStartPos s) (of_nat k) else d k)"
proof (induction s i d rule: getData_loop.induct)
  case (1 s i d)
  show ?case
  proof (cases "int (unat i) < int (unat (datCount s)) - 3")
    case True
    moreover have "unat (datCount s) < 256" using unsigned_less [of "datCount s"] by simp
    ultimately have "unat i < 255" by linarith
    then have suc: "unat (i + 1) = Suc (unat i)" by (rule unat_Suc_word8)
    have "getData_loop s i d
            = getData_loop s (i + 1) (d(unat i := bufRead s (datStartPos s) i))"
      using True by (simp add: getData_loop.simps [of s i d])
    also have "\<dots> = (\<lambda>k. if unat (i + 1) \<le> k \<and> int k < int (unat (datCount s)) - 3
                          then bufRead s (datStartPos s) (of_nat k)
                          else (d(unat i := bufRead s (datStartPos s) i)) k)"
      by (rule "1.IH" [OF True])
    also have "\<dots> = (\<lambda>k. if unat i \<le> k \<and> int k < int (unat (datCount s)) - 3
                          then bufRead s (datStartPos s) (of_nat k) else d k)"
    proof (rule ext)
      fix k
      show "(if unat (i + 1) \<le> k \<and> int k < int (unat (datCount s)) - 3
             then bufRead s (datStartPos s) (of_nat k)
             else (d(unat i := bufRead s (datStartPos s) i)) k)
            = (if unat i \<le> k \<and> int k < int (unat (datCount s)) - 3
               then bufRead s (datStartPos s) (of_nat k) else d k)"
      proof (cases "k = unat i")
        case here: True
        then have "of_nat k = i" by simp
        with here True show ?thesis unfolding suc by simp
      next
        case False
        then show ?thesis unfolding suc by auto
      qed
    qed
    finally show ?thesis .
  next
    case False
    then have "getData_loop s i d = d" by (simp add: getData_loop.simps [of s i d])
    moreover have "\<not> (unat i \<le> k \<and> int k < int (unat (datCount s)) - 3)" for k
      using False by linarith
    ultimately show ?thesis by (auto simp: fun_eq_iff)
  qed
qed

section \<open>Evaluation on concrete drivers\<close>

text \<open>The definitions to unfold when a short run is evaluated on a concrete driver.\<close>

lemmas run_defs = processData_def Let_def modIsLow_def bufBackRead_def bufRead_def
  bytesForBits_def
  BC7215_BUFFER_SIZE_def BC7215_MAX_RX_DATA_SIZE_def sizeof_bc7215FormatPkt_t_def
  rxDriver_def txDriver_def BC7215_new_def MOD_HIGH_def MOD_LOW_def BUSY_NC_def

lemma waitBusy_idle: "waitBusy busyIdle t = Some (Suc t)"
  by (simp add: waitBusy.simps [of busyIdle t] busyIdle_def)

lemma busyReleased_idle: "busyLine s = busyIdle \<Longrightarrow> busyReleased s"
  by (simp add: busyReleased_def busyIdle_def)

section \<open>C1: validation of a data packet\<close>

text \<open>
  What a first terminator does, on every board. In receive mode, after any sequence \<open>bs\<close>
  of processed bytes, a terminator that does not follow another terminator marks the
  packet data-ready if and only if the overflow flag is unset, bit 7 of the status byte
  at backward offset 2 from the last written position is clear, and the value the board
  computes for \<^verbatim>\<open>(temp16 + 7) / 8 + 3\<close>, with \<open>temp16\<close> taken from the two bytes at the end of
  the written span, equals the byte count. When the packet is accepted its start and end
  positions, its byte count and its bit length are recorded; when it is not, neither
  ready flag is set and the record of the last accepted packet is left as it was.
\<close>

lemma data_packet_acceptance:
  assumes "\<not> modIsLow s0" and "framingInv s0"
    and "s = foldl processData s0 bs" and "previousData s \<noteq> 0x7a"
  shows "(dataPktReady (processData s 0x7a) \<longleftrightarrow> dataAccepted s)
         \<and> (dataAccepted s \<longrightarrow>
              datStartPos (processData s 0x7a) = startPos s
              \<and> datEndPos (processData s 0x7a) = lastWritingPos s
              \<and> datCount (processData s 0x7a) = byteCount s
              \<and> bitLen (processData s 0x7a) = lengthField s (lastWritingPos s))
         \<and> (\<not> dataAccepted s \<longrightarrow>
              \<not> dataPktReady (processData s 0x7a)
              \<and> \<not> formatPktReady (processData s 0x7a)
              \<and> datStartPos (processData s 0x7a) = datStartPos s
              \<and> datEndPos (processData s 0x7a) = datEndPos s
              \<and> datCount (processData s 0x7a) = datCount s
              \<and> bitLen (processData s 0x7a) = bitLen s)"
proof -
  have rx: "\<not> modIsLow s" using assms(1,3) by simp
  have "framingInv s" using assms(2,3) by (simp add: framingInv_foldl)
  with assms(4) have quiet: "\<not> dataPktReady s" "\<not> formatPktReady s"
    by (auto simp: framingInv_def)
  show ?thesis
  proof (cases "overLap s")
    case True
    with rx quiet show ?thesis
      by (simp add: processData_rx_term_overLap dataAccepted_def)
  next
    case False
    with rx quiet assms(4) show ?thesis
      by (simp add: processData_rx_term_first dataAccepted_def)
  qed
qed

text \<open>
  The same with the expected byte count \<open>(bitLength + 7) / 8 + 3\<close> on the integers. It
  holds on a board with a wide \<^verbatim>\<open>int\<close>, and on a board with a 16-bit \<^verbatim>\<open>int\<close> for every
  length field up to \<open>0xFFF8\<close>.
\<close>

lemma data_packet_validation:
  assumes "\<not> modIsLow s0" and "framingInv s0"
    and "s = foldl processData s0 bs" and "previousData s \<noteq> 0x7a"
    and "\<not> intIs16Bit s0 \<or> unat (lengthField s (lastWritingPos s)) \<le> 0xFFF8"
  shows "(dataPktReady (processData s 0x7a) \<longleftrightarrow> dataValid s)
         \<and> (dataValid s \<longrightarrow>
              datStartPos (processData s 0x7a) = startPos s
              \<and> datEndPos (processData s 0x7a) = lastWritingPos s
              \<and> datCount (processData s 0x7a) = byteCount s
              \<and> bitLen (processData s 0x7a) = lengthField s (lastWritingPos s))
         \<and> (\<not> dataValid s \<longrightarrow>
              \<not> dataPktReady (processData s 0x7a)
              \<and> \<not> formatPktReady (processData s 0x7a)
              \<and> datStartPos (processData s 0x7a) = datStartPos s
              \<and> datEndPos (processData s 0x7a) = datEndPos s
              \<and> datCount (processData s 0x7a) = datCount s
              \<and> bitLen (processData s 0x7a) = bitLen s)"
proof -
  have "intIs16Bit s = intIs16Bit s0" using assms(3) by simp
  with assms(5) have "dataAccepted s \<longleftrightarrow> dataValid s"
    by (intro dataAccepted_iff_dataValid) simp
  then show ?thesis
    using data_packet_acceptance [OF assms(1-4)] by simp
qed

lemma data_packet_validation_example:
  "\<not> modIsLow rxDriver \<and> framingInv rxDriver
   \<and> previousData (foldl processData rxDriver [0xff, 0x00, 0x02, 0x00]) \<noteq> 0x7a
   \<and> dataValid (foldl processData rxDriver [0xff, 0x00, 0x02, 0x00])
   \<and> dataPktReady (processData (foldl processData rxDriver [0xff, 0x00, 0x02, 0x00]) 0x7a)
   \<and> bitLen (processData (foldl processData rxDriver [0xff, 0x00, 0x02, 0x00]) 0x7a) = 2
   \<and> \<not> dataValid (foldl processData rxDriver [0x01, 0x02, 0x00, 0x00, 0x03])
   \<and> \<not> dataPktReady (processData (foldl processData rxDriver [0x01, 0x02, 0x00, 0x00, 0x03]) 0x7a)"
proof -
  let ?a = "foldl processData rxDriver [0xff, 0x00, 0x02, 0x00]"
  let ?b = "foldl processData rxDriver [0x01, 0x02, 0x00, 0x00, 0x03]"
  have rx: "\<not> modIsLow rxDriver" by (rule not_modIsLow_rxDriver)
  have inv: "framingInv rxDriver" by (simp add: rxDriver_def framingInv_new)
  have wide: "\<not> intIs16Bit rxDriver" by (simp add: rxDriver_def BC7215_new_def)
  have pa: "previousData ?a \<noteq> 0x7a" by (simp add: run_defs)
  have pb: "previousData ?b \<noteq> 0x7a" by (simp add: run_defs)
  have va: "dataValid ?a" by (simp add: dataValid_def errorBitClear_def lengthField_def run_defs)
  have vb: "\<not> dataValid ?b" by (simp add: dataValid_def errorBitClear_def lengthField_def run_defs)
  have la: "lengthField ?a (lastWritingPos ?a) = 2" by (simp add: lengthField_def run_defs)
  show ?thesis
    using data_packet_validation [OF rx inv refl pa] data_packet_validation [OF rx inv refl pb]
      rx inv wide pa va vb la
    by simp
qed

text \<open>
  C1. In receive mode a terminator that does not follow another terminator is to mark
  the packet data-ready if and only if the overflow flag is unset, the error bit of the
  status byte is clear and the expected byte count \<open>(bitLength + 7) / 8 + 3\<close> equals the
  accumulated byte count, after every sequence of processed bytes; the comment on the
  test in \<^verbatim>\<open>processData\<close> says the same (\<^emph>\<open>if the byte count of received packet is
  correct\<close>). On a board with a wide \<^verbatim>\<open>int\<close> the code does that (\<open>data_packet_validation\<close>).
  On a board with a 16-bit \<^verbatim>\<open>int\<close> the sum \<^verbatim>\<open>temp16 + 7\<close> wraps for the length fields above
  \<open>0xFFF8\<close>, and the code accepts a packet that is not valid: the driver of the
  \<^verbatim>\<open>ir_decoder\<close> example on an AVR board, fed the three bytes \<open>0x00, 0xFF, 0xFF\<close> (status
  byte, then a length field of 65535 bits) and a terminator, has accumulated 3 bytes
  where \<open>(65535 + 7) / 8 + 3 = 8195\<close> are expected, and marks the packet data-ready with
  bit length 65535. The same bytes on a board with a wide \<^verbatim>\<open>int\<close> are discarded.
\<close>

theorem data_packet_validation_at_failing_input:
  "intIs16Bit avrDriver
   \<and> previousData (foldl processData avrDriver [0x00, 0xff, 0xff]) \<noteq> 0x7a
   \<and> unat (byteCount (foldl processData avrDriver [0x00, 0xff, 0xff])) = 3
   \<and> lengthField (foldl processData avrDriver [0x00, 0xff, 0xff])
        (lastWritingPos (foldl processData avrDriver [0x00, 0xff, 0xff])) = 0xffff
   \<and> (unat (lengthField (foldl processData avrDriver [0x00, 0xff, 0xff])
               (lastWritingPos (foldl processData avrDriver [0x00, 0xff, 0xff]))) + 7) div 8 + 3
       = 8195
   \<and> \<not> dataValid (foldl processData avrDriver [0x00, 0xff, 0xff])
   \<and> dataPktReady (processData (foldl processData avrDriver [0x00, 0xff, 0xff]) 0x7a)
   \<and> bitLen (processData (foldl processData avrDriver [0x00, 0xff, 0xff]) 0x7a) = 0xffff
   \<and> datCount (processData (foldl processData avrDriver [0x00, 0xff, 0xff]) 0x7a) = 3
   \<and> \<not> dataPktReady (processData (foldl processData rxDriver [0x00, 0xff, 0xff]) 0x7a)"
  by (simp add: dataValid_def errorBitClear_def lengthField_def bytesForBits_def avrDriver_def
        run_defs)

section \<open>C2: byte stuffing round trip\<close>

text \<open>
  C2. For every byte \<open>b\<close>, what \<^verbatim>\<open>byteStuffingSend\<close> writes to the UART is the two bytes
  \<open>0x7B, b | 0x80\<close> when \<open>b\<close> is \<open>0x7A\<close> or \<open>0x7B\<close> and the single byte \<open>b\<close> otherwise; the
  call returns whenever the chip releases BUSY. Feeding that encoding to \<^verbatim>\<open>processData\<close>
  in receive mode, with no escape pending from an earlier byte, writes exactly one byte
  to the circular buffer, at the position after the last written one, and that byte is
  \<open>b\<close>; the byte count goes up by one (from zero when the byte starts a packet).
\<close>

theorem byte_stuffing_round_trip:
  "(byteStuffingSend s b = Some s'
      \<longrightarrow> uartOut s' = uartOut s @ (if b = 0x7a \<or> b = 0x7b then [0x7b, b OR 0x80] else [b]))
   \<and> (busyReleased s \<longrightarrow> (\<exists>s''. byteStuffingSend s b = Some s''))
   \<and> (\<not> modIsLow r \<and> previousData r \<noteq> 0x7b
      \<longrightarrow> (let r' = foldl processData r
                       (if b = 0x7a \<or> b = 0x7b then [0x7b, b OR 0x80] else [b])
           in lastWritingPos r' = nextPos (lastWritingPos r)
              \<and> circularBuffer r' = (circularBuffer r)(unat (nextPos (lastWritingPos r)) := b)
              \<and> bufBackRead r' (lastWritingPos r') 0 = b
              \<and> byteCount r' = (if pktStarted r then byteCount r else 0) + 1))"
proof (intro conjI impI)
  assume "byteStuffingSend s b = Some s'"
  then have "uartOut s' = uartOut s @ stuffed b"
    using sent_fields(1) [OF byteStuffingSend_sent] by blast
  then show "uartOut s' = uartOut s @ (if b = 0x7a \<or> b = 0x7b then [0x7b, b OR 0x80] else [b])"
    by (simp add: stuffed_def)
next
  assume "busyReleased s"
  then show "\<exists>s''. byteStuffingSend s b = Some s''" by (rule byteStuffingSend_returns)
next
  assume a: "\<not> modIsLow r \<and> previousData r \<noteq> 0x7b"
  then have "foldl processData r (stuffed b) = stored r (last (stuffed b)) b"
    using decode_stuffed [of r b] by blast
  then have "foldl processData r (if b = 0x7a \<or> b = 0x7b then [0x7b, b OR 0x80] else [b])
               = stored r (last (stuffed b)) b"
    by (simp add: stuffed_def)
  then show "let r' = foldl processData r
                       (if b = 0x7a \<or> b = 0x7b then [0x7b, b OR 0x80] else [b])
           in lastWritingPos r' = nextPos (lastWritingPos r)
              \<and> circularBuffer r' = (circularBuffer r)(unat (nextPos (lastWritingPos r)) := b)
              \<and> bufBackRead r' (lastWritingPos r') 0 = b
              \<and> byteCount r' = (if pktStarted r then byteCount r else 0) + 1"
    by (simp only: Let_def stored_fields bufBackRead_def) simp
qed

theorem byte_stuffing_round_trip_witness:
  "byteStuffingSend gpioDriver 0x7a = Some (gpioDriver\<lparr>busyReads := 2, uartOut := [0x7b, 0xfa]\<rparr>)
   \<and> uartOut (gpioDriver\<lparr>busyReads := 2, uartOut := [0x7b, 0xfa]\<rparr>) = uartOut gpioDriver @ [0x7b, 0xfa]
   \<and> busyReleased gpioDriver
   \<and> \<not> modIsLow rxDriver \<and> previousData rxDriver \<noteq> 0x7b
   \<and> circularBuffer (foldl processData rxDriver [0x7b, 0xfa]) 1 = 0x7a
   \<and> byteCount (foldl processData rxDriver [0x7b, 0xfa]) = 1"
proof -
  have send: "byteStuffingSend gpioDriver 0x7a
                = Some (gpioDriver\<lparr>busyReads := 2, uartOut := [0x7b, 0xfa]\<rparr>)"
    by (simp add: byteStuffingSend_def sendOneByte_def gpioDriver_def BC7215_new_def
          waitBusy_idle)
  have rel: "busyReleased gpioDriver"
    by (rule busyReleased_idle) (simp add: gpioDriver_def BC7215_new_def)
  have rx: "\<not> modIsLow rxDriver" by (rule not_modIsLow_rxDriver)
  have esc: "previousData rxDriver \<noteq> 0x7b" "\<not> pktStarted rxDriver"
    "nextPos (lastWritingPos rxDriver) = 1"
    by (simp_all add: rxDriver_def BC7215_new_def nextPos_def BC7215_BUFFER_SIZE_def
          BC7215_MAX_RX_DATA_SIZE_def)
  show ?thesis
    using byte_stuffing_round_trip
            [of gpioDriver "0x7a" "gpioDriver\<lparr>busyReads := 2, uartOut := [0x7b, 0xfa]\<rparr>" rxDriver]
      send rel rx esc
    by (simp add: Let_def)
qed

section \<open>C3: detection of a format packet\<close>

text \<open>
  C3. In receive mode with the overflow flag unset, a terminator that arrives right
  after another terminator sets format-ready if and only if the byte count of the packet
  the first terminator closed is 33; here \<open>s\<close> is any state reached by processing bytes
  from a state satisfying \<open>framingInv\<close>. In particular, from a state with no packet in
  progress, a non-empty stream \<open>raw\<close> of non-terminator bytes followed by two terminators
  sets format-ready exactly when 33 of its bytes were accumulated, and a payload \<open>p\<close> of
  at least one byte, stuffed, followed by two terminators sets format-ready exactly when
  \<open>p\<close> has 33 bytes; so 32 or 34 bytes do not.
\<close>

theorem format_packet_detection:
  "(\<not> modIsLow s0 \<and> framingInv s0 \<and> s = foldl processData s0 bs
      \<and> \<not> overLap s \<and> previousData s = 0x7a
     \<longrightarrow> (formatPktReady (processData s 0x7a) \<longleftrightarrow> unat (byteCount s) = 33))
   \<and> (\<not> modIsLow r \<and> \<not> pktStarted r \<and> raw \<noteq> [] \<and> 0x7a \<notin> set raw
     \<longrightarrow> (formatPktReady (foldl processData r (raw @ [0x7a, 0x7a])) \<longleftrightarrow> accumulated raw = 33))
   \<and> (\<not> modIsLow r \<and> \<not> pktStarted r \<and> p \<noteq> []
     \<longrightarrow> (formatPktReady (foldl processData r (wire p @ [0x7a, 0x7a])) \<longleftrightarrow> length p = 33))"
  using format_second_iff [of s0 s bs] format_after_bytes [of r raw]
    format_after_bytes [of r "wire p"] wire_facts [of p]
  by metis

theorem format_packet_detection_witness:
  "\<not> modIsLow rxDriver \<and> framingInv rxDriver \<and> \<not> pktStarted rxDriver
   \<and> \<not> overLap (foldl processData rxDriver (replicate 33 0x01 @ [0x7a]))
   \<and> previousData (foldl processData rxDriver (replicate 33 0x01 @ [0x7a])) = 0x7a
   \<and> unat (byteCount (foldl processData rxDriver (replicate 33 0x01 @ [0x7a]))) = 33
   \<and> formatPktReady (processData (foldl processData rxDriver (replicate 33 0x01 @ [0x7a])) 0x7a)
   \<and> formatPktReady (foldl processData rxDriver (replicate 33 0x01 @ [0x7a, 0x7a]))
   \<and> \<not> formatPktReady (foldl processData rxDriver (replicate 32 0x01 @ [0x7a, 0x7a]))
   \<and> \<not> formatPktReady (foldl processData rxDriver (replicate 34 0x01 @ [0x7a, 0x7a]))
   \<and> formatPktReady (foldl processData rxDriver (wire (replicate 33 0x7a) @ [0x7a, 0x7a]))"
proof -
  let ?bs = "replicate 33 0x01 @ [0x7a :: 8 word]"
  let ?s = "foldl processData rxDriver ?bs"
  have rx: "\<not> modIsLow rxDriver" by (rule not_modIsLow_rxDriver)
  have inv: "framingInv rxDriver" by (simp add: rxDriver_def framingInv_new)
  have idle: "\<not> pktStarted rxDriver" by (simp add: rxDriver_def BC7215_new_def)
  have s1: "\<not> overLap ?s" by code_simp
  have s2: "previousData ?s = 0x7a" by code_simp
  have s3: "unat (byteCount ?s) = 33" by code_simp
  have raw: "replicate 33 (0x01 :: 8 word) \<noteq> []" "replicate 32 (0x01 :: 8 word) \<noteq> []"
    "replicate 34 (0x01 :: 8 word) \<noteq> []" "replicate 33 (0x7a :: 8 word) \<noteq> []"
    "0x7a \<notin> set (replicate 33 (0x01 :: 8 word))" "0x7a \<notin> set (replicate 32 (0x01 :: 8 word))"
    "0x7a \<notin> set (replicate 34 (0x01 :: 8 word))"
    by simp_all
  have len: "accumulated (replicate 33 0x01) = 33" "accumulated (replicate 32 0x01) \<noteq> 33"
    "accumulated (replicate 34 0x01) \<noteq> 33" "length (replicate 33 (0x7a :: 8 word)) = 33"
    by (simp_all add: accumulated_def)
  have eq: "?s = foldl processData rxDriver ?bs" by (rule refl)
  show ?thesis
    using format_packet_detection [of rxDriver ?s ?bs rxDriver "replicate 33 0x01" "replicate 33 0x7a"]
      format_packet_detection [of rxDriver ?s ?bs rxDriver "replicate 32 0x01" "replicate 33 0x7a"]
      format_packet_detection [of rxDriver ?s ?bs rxDriver "replicate 34 0x01" "replicate 33 0x7a"]
      rx inv idle s1 s2 s3 raw len eq
    by blast
qed

section \<open>C4: the terminator in transmit mode\<close>

text \<open>
  C4. While MOD is LOW (hard-wired, or a real pin reading LOW) a terminator sets
  \<open>cmdComplete\<close> and leaves every other component of the state as it was, and any other
  byte leaves the whole state as it was. While MOD is not LOW the same terminator takes
  part in framing: it closes the packet (\<open>pktStarted\<close> false), is remembered as the
  previous byte, and does not touch \<open>cmdComplete\<close>.
\<close>

theorem processData_transmit_mode:
  "(modIsLow s \<longrightarrow> processData s 0x7a = s\<lparr>cmdComplete := True\<rparr>
                  \<and> (\<forall>d. d \<noteq> 0x7a \<longrightarrow> processData s d = s))
   \<and> (\<not> modIsLow s \<longrightarrow> cmdComplete (processData s 0x7a) = cmdComplete s
                  \<and> previousData (processData s 0x7a) = 0x7a
                  \<and> \<not> pktStarted (processData s 0x7a))"
  by (simp add: processData_def Let_def)

theorem processData_transmit_mode_witness:
  "modIsLow txDriver
   \<and> processData txDriver 0x7a = txDriver\<lparr>cmdComplete := True\<rparr>
   \<and> processData txDriver 0x31 = txDriver
   \<and> \<not> modIsLow rxDriver
   \<and> cmdComplete (processData rxDriver 0x7a) = cmdComplete rxDriver
   \<and> previousData (processData rxDriver 0x7a) = 0x7a
   \<and> \<not> pktStarted (processData rxDriver 0x7a)"
  using processData_transmit_mode [of txDriver] processData_transmit_mode [of rxDriver]
  by (simp add: modIsLow_txDriver not_modIsLow_rxDriver)

section \<open>C5: buffer overflow\<close>

text \<open>
  C5. In receive mode, for a packet that starts with the first byte of a stream \<open>bs\<close> of
  non-terminator bytes, the overflow flag is set exactly when more than
  \<open>BC7215_BUFFER_SIZE\<close> bytes have been accumulated (the escape prefix \<open>0x7B\<close> is dropped,
  not accumulated). Once that many have been accumulated, any number of terminators
  leaves the flag set and neither ready flag set; and in any state with the flag set a
  terminator leaves the flag and both ready flags as they were. The flag only goes from
  set to unset in \<^verbatim>\<open>processData\<close> on a non-terminator byte received in receive mode while
  no packet is in progress, that is when a new packet begins; no public call changes it
  except through the bytes it drains.
\<close>

theorem overflow_blocks_ready:
  "(\<not> modIsLow r \<and> \<not> pktStarted r \<and> bs \<noteq> [] \<and> 0x7a \<notin> set bs
      \<longrightarrow> (overLap (foldl processData r bs) \<longleftrightarrow> accumulated bs > BC7215_BUFFER_SIZE))
   \<and> (\<not> modIsLow r \<and> \<not> pktStarted r \<and> 0x7a \<notin> set bs
        \<and> accumulated bs > BC7215_BUFFER_SIZE
      \<longrightarrow> overLap (foldl processData r (bs @ replicate k 0x7a))
          \<and> \<not> dataPktReady (foldl processData r (bs @ replicate k 0x7a))
          \<and> \<not> formatPktReady (foldl processData r (bs @ replicate k 0x7a)))
   \<and> (\<not> modIsLow s \<and> overLap s
      \<longrightarrow> overLap (processData s 0x7a)
          \<and> dataPktReady (processData s 0x7a) = dataPktReady s
          \<and> formatPktReady (processData s 0x7a) = formatPktReady s)
   \<and> (overLap s \<and> \<not> overLap (processData s d)
      \<longrightarrow> \<not> modIsLow s \<and> d \<noteq> 0x7a \<and> \<not> pktStarted s)
   \<and> (exec c s = Some s'
      \<longrightarrow> overLap s' = (if drains c
                         then overLap (foldl processData (s\<lparr>uartIn := []\<rparr>) (uartIn s))
                         else overLap s))"
proof -
  have a: "\<not> modIsLow r \<and> \<not> pktStarted r \<and> bs \<noteq> [] \<and> 0x7a \<notin> set bs
      \<longrightarrow> (overLap (foldl processData r bs) \<longleftrightarrow> accumulated bs > BC7215_BUFFER_SIZE)"
    using after_bytes [of r bs] by (simp add: Let_def)
  show ?thesis
    using a overflow_after_bytes [of r bs k] overLap_terminator [of s]
      overLap_cleared_only_at_start [of s d] exec_overLap [of c s s']
    by blast
qed

theorem overflow_blocks_ready_witness:
  "\<not> modIsLow rxDriver \<and> \<not> pktStarted rxDriver
   \<and> overLap (foldl processData rxDriver (replicate 85 0x01))
   \<and> \<not> overLap (foldl processData rxDriver (replicate 84 0x01 @ [0x7b]))
   \<and> overLap (foldl processData rxDriver (replicate 85 0x01 @ replicate 2 0x7a))
   \<and> \<not> dataPktReady (foldl processData rxDriver (replicate 85 0x01 @ replicate 2 0x7a))
   \<and> \<not> formatPktReady (foldl processData rxDriver (replicate 85 0x01 @ replicate 2 0x7a))
   \<and> overLap (foldl processData rxDriver (replicate 85 0x01 @ [0x7a]))
   \<and> \<not> overLap (processData (foldl processData rxDriver (replicate 85 0x01 @ [0x7a])) 0x01)
   \<and> \<not> pktStarted (foldl processData rxDriver (replicate 85 0x01 @ [0x7a]))
   \<and> exec ClrData (foldl processData rxDriver (replicate 85 0x01))
        = Some (clrData (foldl processData rxDriver (replicate 85 0x01)))
   \<and> overLap (clrData (foldl processData rxDriver (replicate 85 0x01)))"
proof -
  let ?s = "foldl processData rxDriver (replicate 85 0x01 @ [0x7a])"
  let ?u = "foldl processData rxDriver (replicate 85 0x01)"
  have rx: "\<not> modIsLow rxDriver" by (rule not_modIsLow_rxDriver)
  have idle: "\<not> pktStarted rxDriver" by (simp add: rxDriver_def BC7215_new_def)
  have raw: "replicate 85 (0x01 :: 8 word) \<noteq> []" "replicate 84 0x01 @ [0x7b :: 8 word] \<noteq> []"
    "0x7a \<notin> set (replicate 85 (0x01 :: 8 word))"
    "0x7a \<notin> set (replicate 84 0x01 @ [0x7b :: 8 word])"
    by simp_all
  have len: "accumulated (replicate 85 0x01) > BC7215_BUFFER_SIZE"
    "\<not> accumulated (replicate 84 0x01 @ [0x7b]) > BC7215_BUFFER_SIZE"
    by (simp_all add: accumulated_def BC7215_BUFFER_SIZE_def BC7215_MAX_RX_DATA_SIZE_def)
  have s1: "overLap ?s" by code_simp
  have s2: "\<not> overLap (processData ?s 0x01)" by code_simp
  have s3: "overLap ?u" by code_simp
  have x: "exec ClrData ?u = Some (clrData ?u)" by simp
  note at_85 = overflow_blocks_ready
                 [of rxDriver "replicate 85 0x01" 2 ?s "0x01" ClrData "clrData ?s"]
  note at_84 = overflow_blocks_ready
                 [of rxDriver "replicate 84 0x01 @ [0x7b]" 2 ?u "0x01" ClrData "clrData ?u"]
  have "overLap (clrData ?u) = (if drains ClrData
          then overLap (foldl processData (?u\<lparr>uartIn := []\<rparr>) (uartIn ?u)) else overLap ?u)"
    using at_84 x by blast
  then have kept: "overLap (clrData ?u)" using s3 by simp
  show ?thesis
    using at_85 at_84 rx idle raw len s1 s2 x kept
    by blast
qed

section \<open>C6: the busy query\<close>

text \<open>
  C6. \<^verbatim>\<open>isBusy\<close> first runs every pending UART byte through \<^verbatim>\<open>processData\<close>, in
  order, leaving the queue empty. Its answer is then taken from the drained state: the
  negation of \<open>cmdComplete\<close> when MOD is hard-wired LOW or a real MOD pin reads LOW, and
  \<open>pktStarted\<close> in every other configuration, whatever \<open>busyPin\<close> is.
\<close>

theorem isBusy_drains_then_answers:
  "snd (isBusy s) = foldl processData (s\<lparr>uartIn := []\<rparr>) (uartIn s)
   \<and> uartIn (snd (isBusy s)) = []
   \<and> (modIsLow s \<longrightarrow> fst (isBusy s) = (\<not> cmdComplete (snd (isBusy s))))
   \<and> (\<not> modIsLow s \<longrightarrow> fst (isBusy s) = pktStarted (snd (isBusy s)))"
proof -
  have drained: "statusUpdate s = foldl processData (s\<lparr>uartIn := []\<rparr>) (uartIn s)"
    by (rule statusUpdate_foldl)
  have mode: "modIsLow (statusUpdate s) = modIsLow s"
    by (simp add: drained)
  have queue: "uartIn (statusUpdate s) = []"
  proof -
    have "uartIn (foldl processData t bs) = uartIn t" for t bs
      by (induction bs arbitrary: t) simp_all
    then show ?thesis by (simp add: drained)
  qed
  show ?thesis
    using drained mode queue by (simp add: isBusy_def Let_def)
qed

theorem isBusy_drains_then_answers_witness:
  "modIsLow (txDriver\<lparr>uartIn := [0x7a]\<rparr>)
   \<and> fst (isBusy (txDriver\<lparr>uartIn := [0x7a]\<rparr>)) = False
   \<and> \<not> modIsLow (rxDriver\<lparr>uartIn := [0x31]\<rparr>)
   \<and> fst (isBusy (rxDriver\<lparr>uartIn := [0x31]\<rparr>)) = True"
proof -
  have tx: "modIsLow (txDriver\<lparr>uartIn := [0x7a]\<rparr>)"
    by (simp add: modIsLow_txDriver)
  have rx: "\<not> modIsLow (rxDriver\<lparr>uartIn := [0x31]\<rparr>)"
    by (simp add: not_modIsLow_rxDriver)
  have rx': "\<not> modIsLow (rxDriver\<lparr>uartIn := []\<rparr>)"
    by (simp add: not_modIsLow_rxDriver)
  have "cmdComplete (foldl processData (txDriver\<lparr>uartIn := []\<rparr>) [0x7a])"
    by (simp add: processData_tx modIsLow_txDriver)
  moreover have "pktStarted (foldl processData (rxDriver\<lparr>uartIn := []\<rparr>) [0x31])"
    by (simp add: processData_rx_store [OF rx'] packetStart_def Let_def)
  ultimately show ?thesis
    using isBusy_drains_then_answers [of "txDriver\<lparr>uartIn := [0x7a]\<rparr>"]
          isBusy_drains_then_answers [of "rxDriver\<lparr>uartIn := [0x31]\<rparr>"] tx rx
    by simp
qed

section \<open>C7: entering transmit mode\<close>

text \<open>
  C7 as stated fails: after 85 payload bytes in receive mode the overflow flag is set,
  and it is still set after \<^verbatim>\<open>setTx\<close>.
\<close>

theorem setTx_keeps_overflow_counterexample:
  "overLap (foldl processData gpioDriver (replicate 85 0x01))
   \<and> overLap (setTx (foldl processData gpioDriver (replicate 85 0x01)))"
  by code_simp

text \<open>
  C7, as the code has it. \<^verbatim>\<open>setTx\<close> clears data-packet-ready, format-packet-ready and
  packet-in-progress and sets command-complete, for every prior state. It does not
  touch the overflow flag: \<open>overLap\<close> keeps the value it had (it is cleared by the next
  packet start in \<^verbatim>\<open>processData\<close>).
\<close>

theorem setTx_resets_flags:
  "\<not> dataPktReady (setTx s) \<and> \<not> formatPktReady (setTx s) \<and> \<not> pktStarted (setTx s)
   \<and> cmdComplete (setTx s) \<and> overLap (setTx s) = overLap s"
  by (simp add: setTx_def)

section \<open>C8: end-to-end scenario B\<close>

text \<open>
  C8 as stated fails. From a fresh driver in receive mode the stream
  \<open>0x00, 0x02, 0xFF, 0x00, 0x7A\<close> does accumulate a byte count of 4, but the terminator
  does not mark the packet data-ready: \<^verbatim>\<open>processData\<close> takes the bit length from the
  last two bytes before the terminator (\<open>0x00\<close> as high byte, \<open>0xFF\<close> as low byte, 255
  bits, expected count 35) and the status from the byte before them.
\<close>

theorem scenario_B_as_specified_counterexample:
  "unat (byteCount (foldl processData rxDriver [0x00, 0x02, 0xff, 0x00, 0x7a])) = 4
   \<and> lengthField (foldl processData rxDriver [0x00, 0x02, 0xff, 0x00])
         (lastWritingPos (foldl processData rxDriver [0x00, 0x02, 0xff, 0x00])) = 255
   \<and> \<not> dataPktReady (foldl processData rxDriver [0x00, 0x02, 0xff, 0x00, 0x7a])
   \<and> bitLen (foldl processData rxDriver [0x00, 0x02, 0xff, 0x00, 0x7a]) \<noteq> 2
   \<and> fst (getRaw (foldl processData rxDriver [0x00, 0x02, 0xff, 0x00, 0x7a]) blankMem 1) = 0"
  by code_simp

text \<open>
  C8, as the code has it. \<^verbatim>\<open>processData\<close> and \<^verbatim>\<open>getData\<close> agree on the layout payload,
  status byte, bit length (low byte, then high byte), terminator. From a fresh driver in
  receive mode the 2-bit packet with payload byte \<open>0xFF\<close> and status \<open>0x00\<close> is therefore
  the stream \<open>0xFF, 0x00, 0x02, 0x00, 0x7A\<close>: it accumulates a byte count of 4, equal to
  the expected \<open>(2 + 7) / 8 + 3 = 4\<close>, the error bit of the status byte is clear, and the
  terminator marks it data-ready with bit length 2; \<^verbatim>\<open>getRaw\<close> then delivers one byte,
  \<open>0xFF\<close>.
\<close>

theorem scenario_B_length_last:
  "unat (byteCount (foldl processData rxDriver [0xff, 0x00, 0x02, 0x00, 0x7a])) = 4
   \<and> lengthField (foldl processData rxDriver [0xff, 0x00, 0x02, 0x00])
         (lastWritingPos (foldl processData rxDriver [0xff, 0x00, 0x02, 0x00])) = 2
   \<and> errorBitClear (foldl processData rxDriver [0xff, 0x00, 0x02, 0x00])
         (lastWritingPos (foldl processData rxDriver [0xff, 0x00, 0x02, 0x00]))
   \<and> dataValid (foldl processData rxDriver [0xff, 0x00, 0x02, 0x00])
   \<and> dataPktReady (foldl processData rxDriver [0xff, 0x00, 0x02, 0x00, 0x7a])
   \<and> bitLen (foldl processData rxDriver [0xff, 0x00, 0x02, 0x00, 0x7a]) = 2
   \<and> fst (getRaw (foldl processData rxDriver [0xff, 0x00, 0x02, 0x00, 0x7a]) blankMem 1) = 1
   \<and> fst (snd (getRaw (foldl processData rxDriver [0xff, 0x00, 0x02, 0x00, 0x7a]) blankMem 1)) 0
       = 0xff"
  by code_simp

section \<open>C9: retrieving a data packet\<close>

text \<open>
  What \<^verbatim>\<open>getData\<close> does, in every state. It first drains the UART. If data-ready is then
  false it returns \<open>0xFF\<close> and the target is unchanged. If data-ready is true it returns
  the byte at backward offset 2 from the recorded end of the packet (its status byte),
  stores the bit length in the target, copies exactly \<open>datCount - 3\<close> payload bytes
  (none when \<open>datCount\<close> is below 3) from the buffer, starting at the recorded start
  position, into the target's data, leaves the rest of the target's data unchanged, and
  clears data-ready. The number copied is \<open>(bitLength + 7) / 8\<close> whenever the recorded
  count is \<open>(bitLength + 7) / 8 + 3\<close>, as it is right after a single terminator has
  accepted a valid packet (\<open>data_packet_validation\<close>).
\<close>

lemma getData_result:
  "(\<not> dataPktReady (statusUpdate s) \<longrightarrow> getData s target = (0xff, target, statusUpdate s))
   \<and> (dataPktReady (statusUpdate s) \<longrightarrow>
        fst (getData s target) = bufBackRead (statusUpdate s) (datEndPos (statusUpdate s)) 2
        \<and> pktBitLen (fst (snd (getData s target))) = bitLen (statusUpdate s)
        \<and> (\<forall>k. pktData (fst (snd (getData s target))) k
                 = (if k < unat (datCount (statusUpdate s)) - 3
                    then bufRead (statusUpdate s) (datStartPos (statusUpdate s)) (of_nat k)
                    else pktData target k))
        \<and> snd (snd (getData s target)) = (statusUpdate s)\<lparr>dataPktReady := False\<rparr>
        \<and> (unat (datCount (statusUpdate s)) = (unat (bitLen (statusUpdate s)) + 7) div 8 + 3
             \<longrightarrow> unat (datCount (statusUpdate s)) - 3
                   = (unat (bitLen (statusUpdate s)) + 7) div 8))"
proof -
  have bound: "(int k < uint w - 3) = (k < unat w - 3)" for k and w :: "8 word"
  proof -
    have "uint w = int (unat w)" by simp
    then show ?thesis by linarith
  qed
  show ?thesis
    by (simp add: getData_def Let_def getData_loop_result bound)
qed

lemma getData_result_example:
  "\<not> dataPktReady (statusUpdate rxDriver)
   \<and> getData rxDriver blankPkt = (0xff, blankPkt, statusUpdate rxDriver)
   \<and> dataPktReady (statusUpdate (rxDriver\<lparr>uartIn := [0xff, 0x00, 0x02, 0x00, 0x7a]\<rparr>))
   \<and> unat (datCount (statusUpdate (rxDriver\<lparr>uartIn := [0xff, 0x00, 0x02, 0x00, 0x7a]\<rparr>)))
       = (unat (bitLen (statusUpdate (rxDriver\<lparr>uartIn := [0xff, 0x00, 0x02, 0x00, 0x7a]\<rparr>))) + 7)
           div 8 + 3
   \<and> fst (getData (rxDriver\<lparr>uartIn := [0xff, 0x00, 0x02, 0x00, 0x7a]\<rparr>) blankPkt) = 0x00
   \<and> pktBitLen (fst (snd (getData (rxDriver\<lparr>uartIn := [0xff, 0x00, 0x02, 0x00, 0x7a]\<rparr>) blankPkt)))
       = 2
   \<and> pktData (fst (snd (getData (rxDriver\<lparr>uartIn := [0xff, 0x00, 0x02, 0x00, 0x7a]\<rparr>) blankPkt))) 0
       = 0xff
   \<and> pktData (fst (snd (getData (rxDriver\<lparr>uartIn := [0xff, 0x00, 0x02, 0x00, 0x7a]\<rparr>) blankPkt))) 1
       = pktData blankPkt 1
   \<and> \<not> dataPktReady (snd (snd (getData (rxDriver\<lparr>uartIn := [0xff, 0x00, 0x02, 0x00, 0x7a]\<rparr>)
                                        blankPkt)))"
proof -
  let ?s = "rxDriver\<lparr>uartIn := [0xff, 0x00, 0x02, 0x00, 0x7a]\<rparr>"
  have idle: "\<not> dataPktReady (statusUpdate rxDriver)" by code_simp
  have ready: "dataPktReady (statusUpdate ?s)" by code_simp
  have vals: "unat (datCount (statusUpdate ?s)) = 4" "bitLen (statusUpdate ?s) = 2"
    "bufBackRead (statusUpdate ?s) (datEndPos (statusUpdate ?s)) 2 = 0x00"
    "bufRead (statusUpdate ?s) (datStartPos (statusUpdate ?s)) (of_nat 0) = 0xff"
    by code_simp+
  show ?thesis
    using getData_result [of rxDriver blankPkt] getData_result [of ?s blankPkt] idle ready vals
    by simp
qed

text \<open>
  C9. When data-ready is false after the drain, \<^verbatim>\<open>getData\<close> returns \<open>0xFF\<close> and leaves the
  target alone; when it is true, \<^verbatim>\<open>getData\<close> is to copy the bit length and exactly
  \<open>(bitLength + 7) / 8\<close> payload bytes, clear data-ready and return the status byte. That
  is also what the README promises (the length copied corresponds to \<^verbatim>\<open>getLen()\<close>), what
  \<^verbatim>\<open>dpketSize\<close> reports and what \<^verbatim>\<open>getRaw\<close> copies. The first half holds
  (\<open>getData_result\<close>); the count does not. The terminator that follows another
  terminator re-reads \<open>bitLen\<close> from the buffer at \<open>datEndPos\<close> and sets data-ready
  without looking at \<open>datCount\<close>, and \<^verbatim>\<open>getData\<close> copies \<open>datCount - 3\<close> bytes. On a fresh
  driver in receive mode fed 84 bytes \<open>0x01\<close> and two terminators, data-ready is set with
  a bit length of 257 while \<open>datCount\<close> is 0: \<^verbatim>\<open>getData\<close> stores bit length 257 in the
  target and copies no payload byte (byte 0 of the target keeps its old value although
  the packet's first buffer byte is \<open>0x01\<close>), where \<open>(257 + 7) / 8 = 33\<close> bytes are due;
  \<^verbatim>\<open>getRaw\<close> on the same state copies 33 and \<^verbatim>\<open>dpketSize\<close> reports 35.
\<close>

theorem getData_count_at_failing_input:
  "dataPktReady (statusUpdate (rxDriver\<lparr>uartIn := replicate 84 0x01 @ [0x7a, 0x7a]\<rparr>))
   \<and> bitLen (statusUpdate (rxDriver\<lparr>uartIn := replicate 84 0x01 @ [0x7a, 0x7a]\<rparr>)) = 257
   \<and> datCount (statusUpdate (rxDriver\<lparr>uartIn := replicate 84 0x01 @ [0x7a, 0x7a]\<rparr>)) = 0
   \<and> (unat (bitLen (statusUpdate (rxDriver\<lparr>uartIn := replicate 84 0x01 @ [0x7a, 0x7a]\<rparr>))) + 7)
         div 8 = 33
   \<and> bufRead (statusUpdate (rxDriver\<lparr>uartIn := replicate 84 0x01 @ [0x7a, 0x7a]\<rparr>))
         (datStartPos (statusUpdate (rxDriver\<lparr>uartIn := replicate 84 0x01 @ [0x7a, 0x7a]\<rparr>))) 0
       = 0x01
   \<and> pktBitLen (fst (snd (getData (rxDriver\<lparr>uartIn := replicate 84 0x01 @ [0x7a, 0x7a]\<rparr>)
                                  blankPkt)))
       = 257
   \<and> pktData (fst (snd (getData (rxDriver\<lparr>uartIn := replicate 84 0x01 @ [0x7a, 0x7a]\<rparr>)
                                blankPkt))) 0
       = 0xee
   \<and> fst (getRaw (rxDriver\<lparr>uartIn := replicate 84 0x01 @ [0x7a, 0x7a]\<rparr>) blankMem 100) = 33
   \<and> fst (dpketSize (rxDriver\<lparr>uartIn := replicate 84 0x01 @ [0x7a, 0x7a]\<rparr>)) = 35"
  by code_simp

text \<open>
  The same divergence with traffic a chip in composite mode can produce: a data packet
  of 136 bits, a format packet, a data packet whose status byte carries the error bit,
  and a second format packet, which wraps around the ring and overwrites the trailer of
  the first data packet. The last terminator marks the first data packet ready again
  with the bit length 8 it finds in the overwritten trailer: \<^verbatim>\<open>dpketSize\<close> reports 3
  bytes, and \<^verbatim>\<open>getData\<close> writes 17 payload bytes into the target.
\<close>

lemma getData_after_error_packet:
  "dataPktReady (statusUpdate (rxDriver\<lparr>uartIn := take 56 compositeTraffic\<rparr>))
   \<and> bitLen (statusUpdate (rxDriver\<lparr>uartIn := take 56 compositeTraffic\<rparr>)) = 136
   \<and> datCount (statusUpdate (rxDriver\<lparr>uartIn := take 56 compositeTraffic\<rparr>)) = 20
   \<and> dataPktReady (statusUpdate (rxDriver\<lparr>uartIn := compositeTraffic\<rparr>))
   \<and> bitLen (statusUpdate (rxDriver\<lparr>uartIn := compositeTraffic\<rparr>)) = 8
   \<and> datCount (statusUpdate (rxDriver\<lparr>uartIn := compositeTraffic\<rparr>)) = 20
   \<and> fst (dpketSize (rxDriver\<lparr>uartIn := compositeTraffic\<rparr>)) = 3
   \<and> pktData (fst (snd (getData (rxDriver\<lparr>uartIn := compositeTraffic\<rparr>) blankPkt))) 16 = 0x01
   \<and> pktData (fst (snd (getData (rxDriver\<lparr>uartIn := compositeTraffic\<rparr>) blankPkt))) 17 = 0xee
   \<and> fst (getRaw (rxDriver\<lparr>uartIn := compositeTraffic\<rparr>) blankMem 100) = 1"
  by code_simp

section \<open>C10: shutdown and command completion\<close>

text \<open>
  C10. Whenever \<^verbatim>\<open>setShutDown\<close> returns, \<open>cmdComplete\<close> is false. When MOD is not LOW
  (hard-wired HIGH or a real pin reading HIGH) it returns without writing anything to
  the UART, and \<^verbatim>\<open>cmdCompleted()\<close> called next answers false, whatever bytes are pending.
  When MOD is LOW and the chip releases BUSY it returns after writing \<open>0xF7, 0x00\<close>.
  From a state where \<open>cmdComplete\<close> is false, a public call can only leave it true if the
  call is \<^verbatim>\<open>setTx\<close>, or if it drains the UART while MOD is LOW and a terminator is among
  the pending bytes. \<^verbatim>\<open>setTx\<close> sets it; a terminator processed while MOD is LOW sets it;
  no byte processed while MOD is not LOW changes it.
\<close>

theorem setShutDown_clears_cmdComplete:
  "(setShutDown s = Some s' \<longrightarrow> \<not> cmdComplete s')
   \<and> (\<not> modIsLow s
      \<longrightarrow> setShutDown s = Some (s\<lparr>cmdComplete := False\<rparr>)
          \<and> \<not> fst (cmdCompleted (s\<lparr>cmdComplete := False\<rparr>)))
   \<and> (modIsLow s \<and> busyReleased s
      \<longrightarrow> (\<exists>s''. setShutDown s = Some s'' \<and> uartOut s'' = uartOut s @ [0xf7, 0x00]))
   \<and> (\<not> cmdComplete t \<and> exec c t = Some t' \<and> cmdComplete t'
      \<longrightarrow> c = SetTx \<or> (drains c \<and> modIsLow t \<and> 0x7a \<in> set (uartIn t)))
   \<and> cmdComplete (setTx t)
   \<and> (modIsLow t \<longrightarrow> cmdComplete (processData t 0x7a))
   \<and> (\<not> modIsLow t \<longrightarrow> cmdComplete (processData t d) = cmdComplete t)"
proof -
  have a: "setShutDown s = Some s' \<longrightarrow> \<not> cmdComplete s'"
    using sent_after_update [OF setShutDown_sent, of s s'] by blast
  have b: "\<not> modIsLow s
      \<longrightarrow> setShutDown s = Some (s\<lparr>cmdComplete := False\<rparr>)
          \<and> \<not> fst (cmdCompleted (s\<lparr>cmdComplete := False\<rparr>))"
    by (simp add: setShutDown_def cmdCompleted_def Let_def cmdComplete_statusUpdate modIsLow_def)
  have e: "cmdComplete (setTx t)" by (simp add: setTx_def)
  have f: "modIsLow t \<longrightarrow> cmdComplete (processData t 0x7a)"
    by (simp add: cmdComplete_processData)
  have g: "\<not> modIsLow t \<longrightarrow> cmdComplete (processData t d) = cmdComplete t"
    by (simp add: cmdComplete_processData)
  show ?thesis
    using a b setShutDown_returns [of s] exec_sets_cmdComplete [of t c t'] e f g
    by blast
qed

theorem setShutDown_clears_cmdComplete_witness:
  "\<not> modIsLow (rxDriver\<lparr>cmdComplete := True, uartIn := [0x7a]\<rparr>)
   \<and> setShutDown (rxDriver\<lparr>cmdComplete := True, uartIn := [0x7a]\<rparr>)
       = Some (rxDriver\<lparr>cmdComplete := False, uartIn := [0x7a]\<rparr>)
   \<and> \<not> cmdComplete (rxDriver\<lparr>cmdComplete := False, uartIn := [0x7a]\<rparr>)
   \<and> \<not> fst (cmdCompleted (rxDriver\<lparr>cmdComplete := False, uartIn := [0x7a]\<rparr>))
   \<and> modIsLow txDriver \<and> busyReleased txDriver
   \<and> (\<exists>s''. setShutDown txDriver = Some s'' \<and> uartOut s'' = uartOut txDriver @ [0xf7, 0x00])
   \<and> \<not> cmdComplete (txDriver\<lparr>uartIn := [0x7a]\<rparr>)
   \<and> exec CmdCompleted (txDriver\<lparr>uartIn := [0x7a]\<rparr>)
       = Some (snd (cmdCompleted (txDriver\<lparr>uartIn := [0x7a]\<rparr>)))
   \<and> cmdComplete (snd (cmdCompleted (txDriver\<lparr>uartIn := [0x7a]\<rparr>)))
   \<and> drains CmdCompleted \<and> 0x7a \<in> set (uartIn (txDriver\<lparr>uartIn := [0x7a]\<rparr>))
   \<and> cmdComplete (processData txDriver 0x7a)
   \<and> cmdComplete (processData rxDriver 0x7a) = cmdComplete rxDriver"
proof -
  let ?r = "rxDriver\<lparr>cmdComplete := True, uartIn := [0x7a]\<rparr>"
  let ?t = "txDriver\<lparr>uartIn := [0x7a]\<rparr>"
  have r: "\<not> modIsLow ?r" using not_modIsLow_rxDriver by (simp add: modIsLow_def)
  have r': "?r\<lparr>cmdComplete := False\<rparr> = rxDriver\<lparr>cmdComplete := False, uartIn := [0x7a]\<rparr>"
    by simp
  have t: "modIsLow txDriver" "busyReleased txDriver" "\<not> cmdComplete ?t"
    by (rule modIsLow_txDriver)
       (simp_all add: busyReleased_def txDriver_def BC7215_new_def BUSY_NC_def)
  have x: "exec CmdCompleted ?t = Some (snd (cmdCompleted ?t))" by simp
  have y: "cmdComplete (snd (cmdCompleted ?t))"
    using modIsLow_txDriver by (simp add: cmdCompleted_def Let_def cmdComplete_statusUpdate)
  show ?thesis
    using setShutDown_clears_cmdComplete
            [of ?r "rxDriver\<lparr>cmdComplete := False, uartIn := [0x7a]\<rparr>" ?t CmdCompleted
                "snd (cmdCompleted ?t)" "0x7a"]
      setShutDown_clears_cmdComplete
            [of txDriver txDriver txDriver CmdCompleted txDriver "0x7a"]
      setShutDown_clears_cmdComplete
            [of txDriver txDriver rxDriver CmdCompleted rxDriver "0x7a"]
      r r' t x y not_modIsLow_rxDriver
    by simp
qed

end
